theory Spec2Isabelle
  imports Main
begin

section \<open>Text: Python strings as lists of code points\<close>

text \<open>
  A Python \<open>str\<close> is a sequence of Unicode code points, so a character is a natural
  number and a string a list of them. The characters the engine names are fixed here.
\<close>

type_synonym uchar = nat
type_synonym ustring = "uchar list"

definition newline :: uchar where "newline = 10"
definition lparen :: uchar where "lparen = 40"
definition rparen :: uchar where "rparen = 41"

text \<open>The regex class \<open>[a-zA-Z]\<close>.\<close>

definition latin :: "uchar \<Rightarrow> bool" where
  "latin c = (65 \<le> c \<and> c \<le> 90 \<or> 97 \<le> c \<and> c \<le> 122)"

text \<open>The regex class of the code points U+4E00 to U+9FA5.\<close>

definition cjk :: "uchar \<Rightarrow> bool" where
  "cjk c = (19968 \<le> c \<and> c \<le> 40869)"

text \<open>
  The characters \<open>str.strip()\<close> removes and the regex class \<open>\s\<close> matches on a
  \<open>str\<close> pattern: those for which \<open>str.isspace()\<close> holds (U+0009..U+000D,
  U+001C..U+0020, U+0085, U+00A0, U+1680, U+2000..U+200A, U+2028, U+2029, U+202F,
  U+205F, U+3000).
\<close>

definition isspace :: "uchar \<Rightarrow> bool" where
  "isspace c = (9 \<le> c \<and> c \<le> 13 \<or> 28 \<le> c \<and> c \<le> 32 \<or> c = 133 \<or> c = 160
      \<or> c = 5760 \<or> 8192 \<le> c \<and> c \<le> 8202 \<or> c = 8232 \<or> c = 8233 \<or> c = 8239
      \<or> c = 8287 \<or> c = 12288)"

definition lstrip :: "ustring \<Rightarrow> ustring" where
  "lstrip s = dropWhile isspace s"

definition rstrip :: "ustring \<Rightarrow> ustring" where
  "rstrip s = rev (dropWhile isspace (rev s))"

definition strip :: "ustring \<Rightarrow> ustring" where
  "strip s = lstrip (rstrip s)"

text \<open>
  \<open>s.split('\n')\<close>: one part more than there are newlines, empty parts kept.
  The second case of the inner \<open>case\<close> is never reached, the result is never empty.
\<close>

fun split_nl :: "ustring \<Rightarrow> ustring list" where
  "split_nl [] = [[]]"
| "split_nl (c # cs) =
     (if c = newline then [] # split_nl cs
      else (case split_nl cs of l # ls \<Rightarrow> (c # l) # ls | [] \<Rightarrow> [[c]]))"

text \<open>
  A cell value as the spreadsheet library hands it over: nothing, a text, or a value of
  another type (number, boolean, date), which the engine never looks into.
\<close>

datatype pyval = PNone | PStr ustring | POther nat

section \<open>The cell classifier\<close>

text \<open>
  \<open>re.search(r'\([a-zA-Z].*\)$', s)\<close>. \<open>paren_tail\<close> is \<open>.*\)$\<close> from a given
  position: \<open>.\<close> matches anything but a newline, and \<open>$\<close> matches at the end of the
  string or just before a newline that ends it. \<open>paren_search\<close> tries every start.
\<close>

fun paren_tail :: "ustring \<Rightarrow> bool" where
  "paren_tail [] = False"
| "paren_tail (c # cs) =
     ((c = rparen \<and> (cs = [] \<or> cs = [newline])) \<or> (c \<noteq> newline \<and> paren_tail cs))"

fun paren_search :: "ustring \<Rightarrow> bool" where
  "paren_search (a # b # cs) = ((a = lparen \<and> latin b \<and> paren_tail cs) \<or> paren_search (b # cs))"
| "paren_search _ = False"

text \<open>
  \<open>is_already_translated\<close>. \<open>str.isalpha\<close> is the Unicode letter table of the Python
  runtime; it is the parameter \<open>isalpha\<close>.
\<close>

definition is_already_translated :: "(uchar \<Rightarrow> bool) \<Rightarrow> pyval \<Rightarrow> bool" where
  "is_already_translated isalpha cell_value =
     (case cell_value of
        PStr s \<Rightarrow>
          if paren_search s then True
          else if newline \<in> set s then
            (let parts = split_nl s in
             if length parts \<ge> 2 then
               (let first_part = strip (parts ! 0) in
                if list_ex isalpha first_part then True else False)
             else False)
          else False
      | _ \<Rightarrow> False)"

text \<open>
  \<open>re.match(r'^(.*?)\s*\(([A-Za-z\s].*?)\)\s*$', s)\<close>, in the order the backtracking
  matcher tries the alternatives, so that the groups are those of the first success.

  \<open>match_tail\<close> is \<open>.*?\)\s*$\<close>: the lazy star first tries to close the group here
  (a right parenthesis followed by whitespace only, up to the end), and only then takes
  one more character that is not a newline. Its result is the text the star consumed.

  \<open>match_group2\<close> is \<open>\s*\(([A-Za-z\s].*?)\)\s*$\<close> from a given position: the
  greedy \<open>\s*\<close> must stop at a left parenthesis, so it takes the whole run of
  whitespace. Its result is group 2.

  \<open>bracket_match\<close> is the whole pattern: the lazy group 1 grows one character (not a
  newline) at a time, and the first length at which the rest matches wins. \<open>acc\<close> is
  group 1 so far, reversed. The result is (group 1, group 2).
\<close>

fun match_tail :: "ustring \<Rightarrow> ustring \<Rightarrow> ustring option" where
  "match_tail acc [] = None"
| "match_tail acc (c # cs) =
     (if c = rparen \<and> list_all isspace cs then Some (rev acc)
      else if c = newline then None
      else match_tail (c # acc) cs)"

definition match_group2 :: "ustring \<Rightarrow> ustring option" where
  "match_group2 s =
     (case dropWhile isspace s of
        p # c # u \<Rightarrow>
          if p = lparen \<and> (latin c \<or> isspace c)
          then map_option (\<lambda>v. c # v) (match_tail [] u) else None
      | _ \<Rightarrow> None)"

fun bracket_match :: "ustring \<Rightarrow> ustring \<Rightarrow> (ustring \<times> ustring) option" where
  "bracket_match acc [] =
     (case match_group2 [] of Some g2 \<Rightarrow> Some (rev acc, g2) | None \<Rightarrow> None)"
| "bracket_match acc (c # cs) =
     (case match_group2 (c # cs) of
        Some g2 \<Rightarrow> Some (rev acc, g2)
      | None \<Rightarrow> if c = newline then None else bracket_match (c # acc) cs)"

text \<open>\<open>check_and_adjust_translation_order\<close>.\<close>

definition check_and_adjust_translation_order :: "pyval \<Rightarrow> pyval" where
  "check_and_adjust_translation_order cell_value =
     (case cell_value of
        PStr s \<Rightarrow>
          (case bracket_match [] s of
             Some (g1, g2) \<Rightarrow>
               (let chinese_part = strip g1; english_part = strip g2
                in PStr (english_part @ [newline] @ chinese_part))
           | None \<Rightarrow>
               if newline \<in> set s then
                 (let parts = map strip (filter (\<lambda>part. strip part \<noteq> []) (split_nl s)) in
                  if length parts = 2 then
                    (let part1 = parts ! 0; part2 = parts ! 1;
                         has_chinese1 = list_ex cjk part1;
                         has_chinese2 = list_ex cjk part2
                     in if has_chinese1 \<and> \<not> has_chinese2
                        then PStr (part2 @ [newline] @ part1)
                        else if \<not> has_chinese1 \<and> has_chinese2 then cell_value
                        else cell_value)
                  else cell_value)
               else cell_value)
      | _ \<Rightarrow> cell_value)"

text \<open>
  The classifier as the specification words it, to compare with the code: a trailing
  parenthesized group that starts with a Latin letter, or a newline in the text and a
  Latin letter in the trimmed first line.
\<close>

definition trailing_latin_group :: "ustring \<Rightarrow> bool" where
  "trailing_latin_group s =
     (s \<noteq> [] \<and> last s = rparen \<and>
      list_ex (\<lambda>i. s ! i = lparen \<and> latin (s ! Suc i)) [0..<length s - 2])"

definition is_bilingual_spec :: "ustring \<Rightarrow> bool" where
  "is_bilingual_spec s =
     (trailing_latin_group s \<or>
      (newline \<in> set s \<and> list_ex latin (strip (takeWhile (\<lambda>c. c \<noteq> newline) s))))"

text \<open>
  Some left parenthesis of the text is directly followed by a Latin letter or by
  whitespace: the places where group 2 of the bracket pattern can start.
\<close>

fun opens_group :: "ustring \<Rightarrow> bool" where
  "opens_group (a # b # cs) = ((a = lparen \<and> (latin b \<or> isspace b)) \<or> opens_group (b # cs))"
| "opens_group _ = False"

text \<open>
  The lines that the comprehension of \<open>check_and_adjust_translation_order\<close> keeps
  (those that are not blank), before it trims them.
\<close>

definition nonblank_lines :: "ustring \<Rightarrow> ustring list" where
  "nonblank_lines s = filter (\<lambda>part. strip part \<noteq> []) (split_nl s)"

section \<open>The translation client\<close>

text \<open>A string literal of the source made of ASCII characters.\<close>

definition ascii :: "string \<Rightarrow> ustring" where
  "ascii = map of_char"

text \<open>\<open>str(n)\<close> for an integer: its decimal digits, with a minus sign when negative.\<close>

fun digits :: "nat \<Rightarrow> ustring" where
  "digits n = (if n < 10 then [48 + n] else digits (n div 10) @ [48 + n mod 10])"

declare digits.simps [simp del]

definition str :: "int \<Rightarrow> ustring" where
  "str i = (if i < 0 then 45 # digits (nat (- i)) else digits (nat i))"

text \<open>
  \<open>random.randint(a, b)\<close> is \<open>a + randbelow(b - a + 1)\<close>: an integer \<open>N\<close> with
  \<open>a \<le> N \<le> b\<close>, both ends included. The draw is a number \<open>r\<close> that the generator
  gives, reduced modulo the width of the range: every integer from \<open>a\<close> to \<open>b\<close> can be
  drawn, and no other.
\<close>

definition randint :: "int \<Rightarrow> int \<Rightarrow> nat \<Rightarrow> int" where
  "randint a b r = a + int (r mod nat (b - a + 1))"

text \<open>
  The exceptions that leave the functions of the engine. \<open>str.encode()\<close> raises
  \<open>UnicodeEncodeError\<close> on a surrogate (U+D800 to U+DFFF), which UTF-8 cannot encode.
  Assigning a text to \<open>cell.value\<close> raises \<open>IllegalCharacterError\<close> on a control
  character that a worksheet cannot hold.
\<close>

datatype exception = UnicodeEncodeError | IllegalCharacterError

definition surrogate :: "uchar \<Rightarrow> bool" where
  "surrogate c = (55296 \<le> c \<and> c \<le> 57343)"

text \<open>The query parameters of the request, the dictionary \<open>params\<close>.\<close>

record params =
  param_q :: ustring
  param_from :: ustring
  param_to :: ustring
  param_appid :: ustring
  param_salt :: int
  param_sign :: ustring

text \<open>
  What the service answers to a request, as \<open>baidu_translate\<close> tells the cases apart:
  the transport fails or the status is an error (\<open>RequestException\<close>), the body is not
  JSON (\<open>ValueError\<close>), the body has an \<open>error_code\<close>, the body has a \<open>trans_result\<close>
  with the listed \<open>dst\<close> texts, or the body has neither (any other exception).
\<close>

datatype reply =
  RequestException | NotJson | ErrorCode ustring | TransResult "ustring list" | OtherBody

text \<open>
  \<open>baidu_translate\<close>, for the number \<open>r\<close> the generator gives and the service \<open>send\<close>.
  \<open>md5_hexdigest b\<close> is \<open>hashlib.md5(b).hexdigest()\<close> of the encoded text, a
  parameter. The encoding of \<open>sign_str\<close> is outside the \<open>try\<close>: its exception leaves
  the function, before any request. The result is the request made, if one is, and
  either the exception or what the function returns: a text, the text \<open>ERROR_54003\<close>
  when the rate limit was hit, or \<open>None\<close>.
\<close>

definition ERROR_54003 :: ustring where
  "ERROR_54003 = ascii ''ERROR_54003''"

definition baidu_translate ::
  "(ustring \<Rightarrow> ustring) \<Rightarrow> (params \<Rightarrow> reply) \<Rightarrow> nat \<Rightarrow> ustring \<Rightarrow> ustring \<Rightarrow> ustring
     \<Rightarrow> params option \<times> (exception + ustring option)" where
  "baidu_translate md5_hexdigest send r query app_id app_key =
     (let salt = randint 32768 65536 r;
          sign_str = app_id @ query @ str salt @ app_key
      in if list_ex surrogate sign_str then (None, Inl UnicodeEncodeError)
         else
           (let sign = md5_hexdigest sign_str;
                params = \<lparr>param_q = query, param_from = ascii ''zh'', param_to = ascii ''en'',
                          param_appid = app_id, param_salt = salt, param_sign = sign\<rparr>
            in (Some params,
                Inr (case send params of
                       ErrorCode error_code \<Rightarrow>
                         if error_code = ascii ''54003'' then Some ERROR_54003
                         else if error_code = ascii ''52003'' then None
                         else None
                     | TransResult dsts \<Rightarrow> (case dsts of dst # _ \<Rightarrow> Some dst | [] \<Rightarrow> None)
                     | RequestException \<Rightarrow> None
                     | NotJson \<Rightarrow> None
                     | OtherBody \<Rightarrow> None))))"

section \<open>The task record and the worksheet\<close>

datatype status = Pending | Running | Completed | Failed

text \<open>The status messages, one constructor for each text the engine formats.\<close>

datatype message =
    MsgEmpty
  | MsgRowRange int int
  | MsgCellProgress ustring ustring nat nat nat
  | MsgRateLimitWait
  | MsgTestingApi
  | MsgApiTestFailed
  | MsgApiTestPassed
  | MsgLoadingFile ustring
  | MsgFileMissing ustring
  | MsgFileLoaded
  | MsgInputNotFound ustring
  | MsgLoadError
  | MsgNoValidSheets
  | MsgCounting
  | MsgNothingToDo
  | MsgFound nat nat
  | MsgSheet ustring
  | MsgSaved
  | MsgSaveFailed
  | MsgException exception

record task =
  task_id :: ustring
  filename :: ustring
  columns :: "ustring list"
  start_row :: int
  end_row :: "int option"
  sheet_names :: "ustring list option"
  app_id :: ustring
  app_key :: ustring
  status :: status
  progress :: int
  total_cells :: nat
  translated_cells :: nat
  error_cells :: nat
  skipped_cells :: nat
  current_sheet :: ustring
  current_cell :: ustring
  message :: message
  output_file :: ustring
  start_time :: "nat option"
  end_time :: "nat option"

text \<open>\<open>TranslationTask.__init__\<close>.\<close>

definition TranslationTask ::
  "ustring \<Rightarrow> ustring \<Rightarrow> ustring list \<Rightarrow> int \<Rightarrow> int option \<Rightarrow> ustring list option
     \<Rightarrow> ustring \<Rightarrow> ustring \<Rightarrow> task" where
  "TranslationTask tid fname cols srow erow snames aid akey =
     \<lparr>task_id = tid, filename = fname, columns = cols, start_row = srow, end_row = erow,
      sheet_names = snames, app_id = aid, app_key = akey, status = Pending, progress = 0,
      total_cells = 0, translated_cells = 0, error_cells = 0, skipped_cells = 0,
      current_sheet = [], current_cell = [], message = MsgEmpty, output_file = [],
      start_time = None, end_time = None\<rparr>"

text \<open>The styles of a cell, as far as the engine sets them.\<close>

datatype fill = DefaultFill | PatternFill ustring ustring ustring
datatype font = DefaultFont | Font ustring bool
datatype alignment = DefaultAlignment | Alignment bool ustring

definition highlight_fill :: fill where
  "highlight_fill = PatternFill (ascii ''FFFF00'') (ascii ''FFFF00'') (ascii ''solid'')"

definition highlight_font :: font where
  "highlight_font = Font (ascii ''FF0000'') True"

definition wrap_alignment :: alignment where
  "wrap_alignment = Alignment True (ascii ''top'')"

record cell =
  cvalue :: pyval
  cfill :: fill
  cfont :: font
  calignment :: alignment

text \<open>
  The width the engine sets on a column is the float \<open>min(max_length * 1.2 + 5, 50)\<close>.
  The float arithmetic is not modelled: a width is kept as the \<open>max_length\<close> it is
  computed from.
\<close>

datatype width = Width_of_max_length nat

text \<open>
  A worksheet: its cells by (row, column index), its last row, the widths set on its
  columns (by column index) and the heights set on its rows.
\<close>

record worksheet =
  cells :: "int \<times> nat \<Rightarrow> cell"
  max_row :: int
  column_width :: "nat \<Rightarrow> width option"
  row_height :: "int \<Rightarrow> int option"

text \<open>
  A workbook: the names of its worksheets, in order, and the worksheet of each name. What
  opening the input file gives: \<open>os.path.exists\<close> is false, \<open>load_workbook\<close> raises
  \<open>FileNotFoundError\<close> or another exception, or the workbook is loaded.
\<close>

record workbook =
  sheetnames :: "ustring list"
  sheet :: "ustring \<Rightarrow> worksheet"

datatype load_result = NoFile | RaisedFileNotFound | RaisedOther | Loaded workbook

text \<open>
  \<open>column_index_from_string\<close> of the spreadsheet library: the upper-cased name is
  looked up among \<open>A\<close> to \<open>ZZZ\<close>, and a name that is not there raises \<open>ValueError\<close>
  (the result \<open>None\<close>). \<open>upper\<close> is \<open>str.upper\<close>, a parameter.
\<close>

definition column_index_from_string :: "(ustring \<Rightarrow> ustring) \<Rightarrow> ustring \<Rightarrow> nat option" where
  "column_index_from_string upper str_col =
     (let u = upper str_col in
      if 1 \<le> length u \<and> length u \<le> 3 \<and> list_all (\<lambda>c. 65 \<le> c \<and> c \<le> 90) u
      then Some (foldl (\<lambda>n c. 26 * n + (c - 64)) 0 u) else None)"

text \<open>
  What the engine takes from outside: the letter table and the upper-casing of the
  Python runtime, the digest, the number the random generator gives at the \<open>n\<close>-th
  invocation of \<open>baidu_translate\<close> and the answer of the service to its request, the float
  computation \<open>int((p / t) * 100)\<close> as \<open>percent p t\<close>, the two readings of the clock,
  what opening the input file gives, the output path derived from the file name and the
  time, and whether saving the workbook succeeds.
\<close>

record env =
  isalpha :: "uchar \<Rightarrow> bool"
  upper :: "ustring \<Rightarrow> ustring"
  md5_hexdigest :: "ustring \<Rightarrow> ustring"
  draws :: "nat \<Rightarrow> nat"
  send :: "nat \<Rightarrow> params \<Rightarrow> reply"
  percent :: "nat \<Rightarrow> nat \<Rightarrow> int"
  clock_start :: nat
  clock_end :: nat
  load_workbook :: load_result
  output_path :: "ustring \<Rightarrow> ustring"
  save_ok :: bool

text \<open>
  What the poller, the service and the clock see of a run, in order: an assignment to a
  field of the task record (with the record as it is afterwards), a sleep (in tenths of
  a second), a request made to the translation service, a save of the workbook.
\<close>

datatype field =
    F_status | F_progress | F_total_cells | F_translated_cells | F_error_cells
  | F_skipped_cells | F_current_sheet | F_current_cell | F_message | F_output_file
  | F_start_time | F_end_time | F_sheet_names

datatype event = Assigned field task | Slept nat | Requested params | Saved ustring

text \<open>
  The state a run threads: the task record, the worksheets of the workbook by name (a
  worksheet object is referred to by its name), the dictionary \<open>columns_to_adjust\<close> of
  the worksheet pass (column index to \<open>max_length\<close>, in insertion order), the events so
  far and the number of invocations of \<open>baidu_translate\<close> so far.
\<close>

record state =
  task :: task
  sheets :: "ustring \<Rightarrow> worksheet"
  columns_to_adjust :: "(nat \<times> nat) list"
  log :: "event list"
  calls :: nat

definition assign :: "field \<Rightarrow> (task \<Rightarrow> task) \<Rightarrow> state \<Rightarrow> state" where
  "assign fld f s = s\<lparr>task := f (task s), log := log s @ [Assigned fld (f (task s))]\<rparr>"

definition sleep :: "nat \<Rightarrow> state \<Rightarrow> state" where
  "sleep tenths s = s\<lparr>log := log s @ [Slept tenths]\<rparr>"

definition update_cell :: "ustring \<Rightarrow> int \<times> nat \<Rightarrow> (cell \<Rightarrow> cell) \<Rightarrow> state \<Rightarrow> state" where
  "update_cell ws rc f s =
     s\<lparr>sheets := (sheets s)(ws := (sheets s ws)\<lparr>cells := (cells (sheets s ws))(rc := f (cells (sheets s ws) rc))\<rparr>)\<rparr>"

text \<open>Assignment to a key of a dictionary: an old key keeps its place, a new one is last.\<close>

fun dict_set :: "'k \<Rightarrow> 'v \<Rightarrow> ('k \<times> 'v) list \<Rightarrow> ('k \<times> 'v) list" where
  "dict_set k v [] = [(k, v)]"
| "dict_set k v (p # ps) = (if fst p = k then (k, v) # ps else p # dict_set k v ps)"

section \<open>The worksheet processor\<close>

text \<open>
  How a part of a function ends: control goes on to what follows it, a \<open>return\<close>
  inside it ends the function (\<open>return False\<close> in
  \<open>translate_worksheet_with_progress\<close>), or an exception leaves it.
\<close>

datatype outcome = Normal | Return | Raise exception

text \<open>
  The assignment of a text to \<open>cell.value\<close>. The spreadsheet library keeps the first
  32767 characters and raises \<open>IllegalCharacterError\<close> when one of them is a
  control character (code points 0 to 8, 11, 12 and 14 to 31); the cell is then as it was.
\<close>

definition illegal_character :: "uchar \<Rightarrow> bool" where
  "illegal_character c = (c \<le> 8 \<or> c = 11 \<or> c = 12 \<or> (14 \<le> c \<and> c \<le> 31))"

definition set_value :: "ustring \<Rightarrow> int \<times> nat \<Rightarrow> ustring \<Rightarrow> state \<Rightarrow> outcome \<times> state" where
  "set_value ws rc v s =
     (let v1 = take 32767 v
      in if list_ex illegal_character v1 then (Raise IllegalCharacterError, s)
         else (Normal, update_cell ws rc (\<lambda>c. c\<lparr>cvalue := PStr v1\<rparr>) s))"

text \<open>
  The progress update that follows a processed cell (the same lines at three places of
  \<open>translate_worksheet_with_progress\<close>). The two warnings it may print change nothing.
\<close>

definition update_progress :: "env \<Rightarrow> state \<Rightarrow> state" where
  "update_progress e s =
     (let total_processed =
            translated_cells (task s) + error_cells (task s) + skipped_cells (task s)
      in if total_cells (task s) > 0 then
           (let s1 = assign F_progress
                       (\<lambda>t. t\<lparr>progress := min 100 (percent e total_processed (total_cells t))\<rparr>) s
            in if translated_cells (task s1) > 0 \<or> skipped_cells (task s1) > 0
               then assign F_message
                      (\<lambda>t. t\<lparr>message := MsgCellProgress (current_sheet t) (current_cell t)
                                 (translated_cells t) (skipped_cells t) (error_cells t)\<rparr>) s1
               else s1)
         else s)"

text \<open>
  An invocation of \<open>baidu_translate\<close> with the credentials of the task: the request it
  makes, if any, is an event of the run.
\<close>

definition call_translate ::
  "env \<Rightarrow> ustring \<Rightarrow> state \<Rightarrow> (exception + ustring option) \<times> state" where
  "call_translate e query s =
     (let (request, result) =
            baidu_translate (md5_hexdigest e) (send e (calls s)) (draws e (calls s)) query
              (app_id (task s)) (app_key (task s))
      in (result,
          s\<lparr>calls := calls s + 1,
            log := log s @ (case request of Some p \<Rightarrow> [Requested p] | None \<Rightarrow> [])\<rparr>))"

text \<open>The branch of a cell that is already translated, up to its \<open>continue\<close>.\<close>

definition skip_cell ::
  "env \<Rightarrow> ustring \<Rightarrow> int \<times> nat \<Rightarrow> ustring \<Rightarrow> state \<Rightarrow> outcome \<times> state" where
  "skip_cell e ws rc cell_value s =
     (let adjusted_value = check_and_adjust_translation_order (PStr cell_value);
          (out, s1) = (if adjusted_value \<noteq> PStr cell_value
                       then (case adjusted_value of
                               PStr a \<Rightarrow> set_value ws rc a s
                             | _ \<Rightarrow> (Normal, update_cell ws rc
                                                  (\<lambda>c. c\<lparr>cvalue := adjusted_value\<rparr>) s))
                       else (Normal, s))
      in if out \<noteq> Normal then (out, s1)
         else
           (let s2 = assign F_skipped_cells (\<lambda>t. t\<lparr>skipped_cells := skipped_cells t + 1\<rparr>) s1
            in (Normal, update_progress e s2)))"

text \<open>The branch of a cell that is still rate-limited after the retry, up to its \<open>continue\<close>.\<close>

definition fail_cell :: "env \<Rightarrow> ustring \<Rightarrow> int \<times> nat \<Rightarrow> state \<Rightarrow> state" where
  "fail_cell e ws rc s =
     (let s1 = assign F_error_cells (\<lambda>t. t\<lparr>error_cells := error_cells t + 1\<rparr>) s;
          s2 = update_cell ws rc (\<lambda>c. c\<lparr>cfill := highlight_fill\<rparr>) s1;
          s3 = update_cell ws rc (\<lambda>c. c\<lparr>cfont := highlight_font\<rparr>) s2
      in update_progress e s3)"

text \<open>
  The block under \<open>if english_text and english_text != "ERROR_54003"\<close>: the cell gets
  the translation above its text. The key of \<open>columns_to_adjust\<close> is there, set when
  the column was entered.
\<close>

definition write_translation ::
  "ustring \<Rightarrow> int \<times> nat \<Rightarrow> ustring \<Rightarrow> ustring option \<Rightarrow> state \<Rightarrow> outcome \<times> state" where
  "write_translation ws rc cell_value english_text s =
     (case english_text of
        Some english \<Rightarrow>
          if english \<noteq> [] \<and> english \<noteq> ERROR_54003 then
            (let (out, s11) = set_value ws rc (english @ [newline] @ cell_value) s
             in if out \<noteq> Normal then (out, s11)
                else
                  (let s12 = update_cell ws rc (\<lambda>c. c\<lparr>calignment := wrap_alignment\<rparr>) s11;
                       s13 = assign F_translated_cells
                               (\<lambda>t. t\<lparr>translated_cells := translated_cells t + 1\<rparr>) s12;
                       text_length = max (length cell_value) (length english)
                   in (Normal,
                       case map_of (columns_to_adjust s13) (snd rc) of
                         Some max_length \<Rightarrow>
                           if text_length > max_length
                           then s13\<lparr>columns_to_adjust :=
                                      dict_set (snd rc) text_length (columns_to_adjust s13)\<rparr>
                           else s13
                       | None \<Rightarrow> s13)))
          else (Normal, s)
      | None \<Rightarrow> (Normal, s))"

text \<open>The end of the loop body, from that block to the pacing sleep.\<close>

definition finish_cell ::
  "env \<Rightarrow> ustring \<Rightarrow> int \<times> nat \<Rightarrow> ustring \<Rightarrow> ustring option \<Rightarrow> state \<Rightarrow> outcome \<times> state" where
  "finish_cell e ws rc cell_value english_text s =
     (let (out, s1) = write_translation ws rc cell_value english_text s
      in if out \<noteq> Normal then (out, s1)
         else (Normal, sleep 15 (update_progress e s1)))"

text \<open>
  The loop body for a cell that is not yet translated, from the call of
  \<open>baidu_translate\<close> on.
\<close>

definition translate_cell ::
  "env \<Rightarrow> ustring \<Rightarrow> int \<times> nat \<Rightarrow> ustring \<Rightarrow> state \<Rightarrow> outcome \<times> state" where
  "translate_cell e ws rc cell_value s =
     (let (result, s2) = call_translate e cell_value s
      in case result of
           Inl exn \<Rightarrow> (Raise exn, s2)
         | Inr english_text \<Rightarrow>
             if english_text = Some ERROR_54003 then
               (let s3 = assign F_message (\<lambda>t. t\<lparr>message := MsgRateLimitWait\<rparr>) s2;
                    s4 = sleep 100 s3;
                    (result2, s5) = call_translate e cell_value s4
                in case result2 of
                     Inl exn \<Rightarrow> (Raise exn, s5)
                   | Inr english_text2 \<Rightarrow>
                       if english_text2 = Some ERROR_54003
                       then (Normal, fail_cell e ws rc s5)
                       else finish_cell e ws rc cell_value english_text2 s5)
             else finish_cell e ws rc cell_value english_text s2)"

text \<open>
  The body of the row loop for one cell, after the check of the task status. \<open>ws.cell\<close>
  cannot raise here: the row is at least 1 and the column index is one of a column name.
\<close>

definition process_cell ::
  "env \<Rightarrow> ustring \<Rightarrow> ustring \<Rightarrow> nat \<Rightarrow> int \<Rightarrow> state \<Rightarrow> outcome \<times> state" where
  "process_cell e ws col_letter col_index row_idx s =
     (case cvalue (cells (sheets s ws) (row_idx, col_index)) of
        PStr v \<Rightarrow>
          if v = [] then (Normal, s)
          else
            (let cell_value = strip v in
             if cell_value = [] then (Normal, s)
             else
               (let s1 = assign F_current_cell
                           (\<lambda>t. t\<lparr>current_cell := col_letter @ str row_idx\<rparr>) s
                in if is_already_translated (isalpha e) (PStr cell_value)
                   then skip_cell e ws (row_idx, col_index) cell_value s1
                   else translate_cell e ws (row_idx, col_index) cell_value s1))
      | _ \<Rightarrow> (Normal, s))"

text \<open>
  The row loop and the column loop. An exception raised for a cell leaves both loops.
\<close>

fun rows_loop ::
  "env \<Rightarrow> ustring \<Rightarrow> ustring \<Rightarrow> nat \<Rightarrow> int list \<Rightarrow> state \<Rightarrow> outcome \<times> state" where
  "rows_loop e ws col_letter col_index [] s = (Normal, s)"
| "rows_loop e ws col_letter col_index (row_idx # rows) s =
     (if status (task s) = Failed then (Return, s)
      else
        (let (out, s1) = process_cell e ws col_letter col_index row_idx s
         in if out \<noteq> Normal then (out, s1)
            else rows_loop e ws col_letter col_index rows s1))"

fun columns_loop ::
  "env \<Rightarrow> ustring \<Rightarrow> ustring list \<Rightarrow> int list \<Rightarrow> state \<Rightarrow> outcome \<times> state" where
  "columns_loop e ws [] rows s = (Normal, s)"
| "columns_loop e ws (col_letter # cols) rows s =
     (case column_index_from_string (upper e) col_letter of
        None \<Rightarrow> columns_loop e ws cols rows s
      | Some col_index \<Rightarrow>
          (let s1 = s\<lparr>columns_to_adjust := dict_set col_index 0 (columns_to_adjust s)\<rparr>;
               (out, s2) = rows_loop e ws col_letter col_index rows s1
           in if out \<noteq> Normal then (out, s2) else columns_loop e ws cols rows s2))"

text \<open>The two layout loops that end the worksheet pass.\<close>

definition set_column_width :: "ustring \<Rightarrow> nat \<Rightarrow> width \<Rightarrow> state \<Rightarrow> state" where
  "set_column_width ws col_index width s =
     s\<lparr>sheets := (sheets s)(ws := (sheets s ws)
          \<lparr>column_width := (column_width (sheets s ws))(col_index := Some width)\<rparr>)\<rparr>"

definition set_row_height :: "ustring \<Rightarrow> int \<Rightarrow> int \<Rightarrow> state \<Rightarrow> state" where
  "set_row_height ws row_idx height s =
     s\<lparr>sheets := (sheets s)(ws := (sheets s ws)
          \<lparr>row_height := (row_height (sheets s ws))(row_idx := Some height)\<rparr>)\<rparr>"

fun adjust_widths :: "ustring \<Rightarrow> (nat \<times> nat) list \<Rightarrow> state \<Rightarrow> state" where
  "adjust_widths ws [] s = s"
| "adjust_widths ws ((col_index, max_length) # items) s =
     adjust_widths ws items (set_column_width ws col_index (Width_of_max_length max_length) s)"

text \<open>\<open>s.count('\n')\<close>.\<close>

definition count_nl :: "ustring \<Rightarrow> nat" where
  "count_nl s = length (filter (\<lambda>c. c = newline) s)"

fun row_max_lines :: "env \<Rightarrow> worksheet \<Rightarrow> int \<Rightarrow> ustring list \<Rightarrow> nat \<Rightarrow> nat" where
  "row_max_lines e w row_idx [] max_lines = max_lines"
| "row_max_lines e w row_idx (col_letter # cols) max_lines =
     (case column_index_from_string (upper e) col_letter of
        None \<Rightarrow> row_max_lines e w row_idx cols max_lines
      | Some col_index \<Rightarrow>
          (case cvalue (cells w (row_idx, col_index)) of
             PStr v \<Rightarrow>
               if v \<noteq> [] then
                 (let lines = count_nl v + 1
                  in row_max_lines e w row_idx cols (if lines > max_lines then lines else max_lines))
               else row_max_lines e w row_idx cols max_lines
           | _ \<Rightarrow> row_max_lines e w row_idx cols max_lines))"

fun adjust_heights :: "env \<Rightarrow> ustring \<Rightarrow> ustring list \<Rightarrow> int list \<Rightarrow> state \<Rightarrow> state" where
  "adjust_heights e ws cols [] s = s"
| "adjust_heights e ws cols (row_idx # rows) s =
     (let max_lines = row_max_lines e (sheets s ws) row_idx cols 1;
          height = 15 + (int max_lines - 1) * 10
      in adjust_heights e ws cols rows (set_row_height ws row_idx (min height 100) s))"

text \<open>
  \<open>translate_worksheet_with_progress\<close>. \<open>ws\<close> is the name of the worksheet in the
  state, \<open>cols\<close>, \<open>srow\<close> and \<open>erow\<close> are the arguments \<open>columns\<close>, \<open>start_row\<close> and
  \<open>end_row\<close>. The rows of \<open>range(start_row, end_row + 1)\<close> are \<open>[start_row..end_row]\<close>.
  The outcome \<open>Normal\<close> is the result \<open>True\<close>, the outcome \<open>Return\<close> the result \<open>False\<close>.
\<close>

definition clamp_start :: "int \<Rightarrow> int" where
  "clamp_start srow = (if srow < 1 then 1 else srow)"

definition clamp_end :: "worksheet \<Rightarrow> int option \<Rightarrow> int" where
  "clamp_end w erow =
     (let end_row1 = (case erow of None \<Rightarrow> max_row w
                      | Some n \<Rightarrow> if n = 0 then max_row w else n)
      in if end_row1 > max_row w then max_row w else end_row1)"

definition translate_worksheet_with_progress ::
  "env \<Rightarrow> ustring \<Rightarrow> ustring list \<Rightarrow> int \<Rightarrow> int option \<Rightarrow> state \<Rightarrow> outcome \<times> state" where
  "translate_worksheet_with_progress e ws cols srow erow s =
     (let end_row2 = clamp_end (sheets s ws) erow;
          start_row1 = clamp_start srow
      in if start_row1 > end_row2
         then (Return, assign F_message (\<lambda>t. t\<lparr>message := MsgRowRange start_row1 end_row2\<rparr>) s)
         else
           (let s0 = s\<lparr>columns_to_adjust := []\<rparr>;
                (out, s1) = columns_loop e ws cols [start_row1..end_row2] s0
            in if out \<noteq> Normal then (out, s1)
               else
                 (let s2 = adjust_widths ws (columns_to_adjust s1) s1;
                      s3 = adjust_heights e ws cols [start_row1..end_row2] s2
                  in (Normal, s3))))"

section \<open>The task engine\<close>

text \<open>
  The pre-scan. \<open>ws.cell\<close> raises \<open>ValueError\<close> for a row below 1, which ends the scan
  of the column (the counts so far are kept), and it creates the cell of a row beyond
  the last one, which moves the last row of the worksheet. The counts are
  \<open>(total_translatable, total_skippable)\<close>.
\<close>

definition prescan_cell :: "env \<Rightarrow> pyval \<Rightarrow> nat \<times> nat \<Rightarrow> nat \<times> nat" where
  "prescan_cell e v cnt =
     (case v of
        PStr t \<Rightarrow>
          if t \<noteq> [] \<and> strip t \<noteq> [] then
            (if is_already_translated (isalpha e) v then (fst cnt, snd cnt + 1)
             else (fst cnt + 1, snd cnt))
          else cnt
      | _ \<Rightarrow> cnt)"

definition touch_row :: "ustring \<Rightarrow> int \<Rightarrow> state \<Rightarrow> state" where
  "touch_row ws row_idx s =
     s\<lparr>sheets := (sheets s)(ws := (sheets s ws)\<lparr>max_row := max (max_row (sheets s ws)) row_idx\<rparr>)\<rparr>"

fun prescan_rows ::
  "env \<Rightarrow> ustring \<Rightarrow> nat \<Rightarrow> int list \<Rightarrow> (nat \<times> nat) \<times> state \<Rightarrow> (nat \<times> nat) \<times> state" where
  "prescan_rows e ws col_index [] (cnt, s) = (cnt, s)"
| "prescan_rows e ws col_index (row_idx # rows) (cnt, s) =
     (if row_idx < 1 then (cnt, s)
      else
        (let s1 = touch_row ws row_idx s
         in prescan_rows e ws col_index rows
              (prescan_cell e (cvalue (cells (sheets s1 ws) (row_idx, col_index))) cnt, s1)))"

fun prescan_columns ::
  "env \<Rightarrow> ustring \<Rightarrow> ustring list \<Rightarrow> int \<Rightarrow> int option \<Rightarrow> (nat \<times> nat) \<times> state
     \<Rightarrow> (nat \<times> nat) \<times> state" where
  "prescan_columns e ws [] srow erow (cnt, s) = (cnt, s)"
| "prescan_columns e ws (col_letter # cols) srow erow (cnt, s) =
     (case column_index_from_string (upper e) col_letter of
        None \<Rightarrow> prescan_columns e ws cols srow erow (cnt, s)
      | Some col_index \<Rightarrow>
          (let last = (case erow of None \<Rightarrow> max_row (sheets s ws)
                       | Some n \<Rightarrow> if n = 0 then max_row (sheets s ws) else n)
           in prescan_columns e ws cols srow erow
                (prescan_rows e ws col_index [srow..last] (cnt, s))))"

fun prescan_sheets ::
  "env \<Rightarrow> ustring list \<Rightarrow> ustring list \<Rightarrow> int \<Rightarrow> int option \<Rightarrow> (nat \<times> nat) \<times> state
     \<Rightarrow> (nat \<times> nat) \<times> state" where
  "prescan_sheets e [] cols srow erow (cnt, s) = (cnt, s)"
| "prescan_sheets e (sheet_name # names) cols srow erow (cnt, s) =
     prescan_sheets e names cols srow erow (prescan_columns e sheet_name cols srow erow (cnt, s))"

text \<open>
  The loop over the worksheets. The outcome \<open>Return\<close> tells that
  \<open>translate_excel_with_progress\<close> returned from inside the loop.
\<close>

fun sheets_loop :: "env \<Rightarrow> ustring list \<Rightarrow> state \<Rightarrow> outcome \<times> state" where
  "sheets_loop e [] s = (Normal, s)"
| "sheets_loop e (sheet_name # names) s =
     (if status (task s) = Failed then (Normal, s)
      else
        (let s1 = assign F_current_sheet (\<lambda>t. t\<lparr>current_sheet := sheet_name\<rparr>) s;
             s2 = assign F_message (\<lambda>t. t\<lparr>message := MsgSheet sheet_name\<rparr>) s1;
             (success, s3) = translate_worksheet_with_progress e sheet_name
                               (columns (task s2)) (start_row (task s2)) (end_row (task s2)) s2
         in case success of
              Normal \<Rightarrow> sheets_loop e names s3
            | Return \<Rightarrow> (Return, assign F_status (\<lambda>t. t\<lparr>status := Failed\<rparr>) s3)
            | Raise exn \<Rightarrow> (Raise exn, s3)))"

text \<open>The end of \<open>translate_excel_with_progress\<close>, after the loop: the save.\<close>

definition save_result :: "env \<Rightarrow> state \<Rightarrow> state" where
  "save_result e s =
     (if status (task s) \<noteq> Failed then
        (if save_ok e then
           (let s1 = s\<lparr>log := log s @ [Saved (output_file (task s))]\<rparr>;
                s2 = assign F_message (\<lambda>t. t\<lparr>message := MsgSaved\<rparr>) s1;
                s3 = assign F_status (\<lambda>t. t\<lparr>status := Completed\<rparr>) s2;
                s4 = assign F_end_time (\<lambda>t. t\<lparr>end_time := Some (clock_end e)\<rparr>) s3
            in assign F_progress (\<lambda>t. t\<lparr>progress := 100\<rparr>) s4)
         else
           (let s1 = assign F_message (\<lambda>t. t\<lparr>message := MsgSaveFailed\<rparr>) s
            in assign F_status (\<lambda>t. t\<lparr>status := Failed\<rparr>) s1))
      else s)"

text \<open>
  \<open>translate_excel_with_progress\<close> from the pre-scan to the reset of the counters, for
  the worksheet names \<open>names\<close> that were just stored in the task. The result has the
  two counts of the pre-scan.
\<close>

definition count_cells :: "env \<Rightarrow> ustring list \<Rightarrow> state \<Rightarrow> (nat \<times> nat) \<times> state" where
  "count_cells e names s =
     (let s1 = assign F_message (\<lambda>t. t\<lparr>message := MsgCounting\<rparr>) s;
          ((total_translatable, total_skippable), s2) =
             prescan_sheets e names (columns (task s1)) (start_row (task s1))
               (end_row (task s1)) ((0, 0), s1);
          total_cells_to_process = total_translatable + total_skippable;
          s3 = assign F_total_cells (\<lambda>t. t\<lparr>total_cells := total_cells_to_process\<rparr>) s2;
          s4 = assign F_translated_cells (\<lambda>t. t\<lparr>translated_cells := 0\<rparr>) s3;
          s5 = assign F_error_cells (\<lambda>t. t\<lparr>error_cells := 0\<rparr>) s4;
          s6 = assign F_skipped_cells (\<lambda>t. t\<lparr>skipped_cells := 0\<rparr>) s5;
          s7 = assign F_progress (\<lambda>t. t\<lparr>progress := 0\<rparr>) s6
      in ((total_translatable, total_skippable), s7))"

text \<open>
  The body of the outer \<open>try\<close> of \<open>translate_excel_with_progress\<close> from the pre-scan
  on. The outcome is \<open>Raise\<close> when an exception leaves the body.
\<close>

definition scan_and_translate :: "env \<Rightarrow> ustring list \<Rightarrow> state \<Rightarrow> outcome \<times> state" where
  "scan_and_translate e names s =
     (let ((total_translatable, total_skippable), s7) = count_cells e names s;
          total_cells_to_process = total_translatable + total_skippable
      in if total_cells_to_process = 0 then
           (let s8 = assign F_message (\<lambda>t. t\<lparr>message := MsgNothingToDo\<rparr>) s7;
                s9 = assign F_status (\<lambda>t. t\<lparr>status := Completed\<rparr>) s8
            in (Return, assign F_end_time (\<lambda>t. t\<lparr>end_time := Some (clock_end e)\<rparr>) s9))
         else
           (let s8 = assign F_message
                       (\<lambda>t. t\<lparr>message := MsgFound total_translatable total_skippable\<rparr>) s7;
                s9 = assign F_output_file
                       (\<lambda>t. t\<lparr>output_file := output_path e (filename t)\<rparr>) s8;
                (out, s10) = sheets_loop e names s9
            in if out \<noteq> Normal then (out, s10) else (Normal, save_result e s10)))"

text \<open>
  The body of the outer \<open>try\<close> of \<open>translate_excel_with_progress\<close>, and the function
  with the handler of that \<open>try\<close>: an exception that leaves the body (from the encoding
  of the text to sign, or from the assignment of a text to a cell) marks the task failed.
\<close>

definition fail_with :: "message \<Rightarrow> state \<Rightarrow> state" where
  "fail_with m s =
     assign F_status (\<lambda>t. t\<lparr>status := Failed\<rparr>) (assign F_message (\<lambda>t. t\<lparr>message := m\<rparr>) s)"

definition try_body :: "env \<Rightarrow> state \<Rightarrow> outcome \<times> state" where
  "try_body e s =
     (let s1 = assign F_start_time (\<lambda>t. t\<lparr>start_time := Some (clock_start e)\<rparr>) s;
          s2 = assign F_status (\<lambda>t. t\<lparr>status := Running\<rparr>) s1;
          s3 = assign F_message (\<lambda>t. t\<lparr>message := MsgTestingApi\<rparr>) s2;
          (result, s4) = call_translate e [27979, 35797] s3
      in case result of
           Inl exn \<Rightarrow> (Raise exn, s4)
         | Inr test_result \<Rightarrow>
             if test_result = None \<or> test_result = Some ERROR_54003
             then (Return, fail_with MsgApiTestFailed s4)
             else
               (let s5 = assign F_message (\<lambda>t. t\<lparr>message := MsgApiTestPassed\<rparr>) s4;
                    s6 = assign F_message (\<lambda>t. t\<lparr>message := MsgLoadingFile (filename t)\<rparr>) s5
                in case load_workbook e of
                     NoFile \<Rightarrow> (Return, fail_with (MsgFileMissing (filename (task s6))) s6)
                   | RaisedFileNotFound \<Rightarrow>
                       (Return, fail_with (MsgInputNotFound (filename (task s6))) s6)
                   | RaisedOther \<Rightarrow> (Return, fail_with MsgLoadError s6)
                   | Loaded wb \<Rightarrow>
                       (let s7 = assign F_message (\<lambda>t. t\<lparr>message := MsgFileLoaded\<rparr>)
                                   (s6\<lparr>sheets := sheet wb\<rparr>);
                            all_sheet_names = sheetnames wb
                        in case sheet_names (task s7) of
                             None \<Rightarrow>
                               scan_and_translate e all_sheet_names
                                 (assign F_sheet_names
                                    (\<lambda>t. t\<lparr>sheet_names := Some all_sheet_names\<rparr>) s7)
                           | Some names \<Rightarrow>
                               (let valid_sheets =
                                      filter (\<lambda>name. name \<in> set all_sheet_names) names
                                in if valid_sheets = []
                                   then (Return, fail_with MsgNoValidSheets s7)
                                   else scan_and_translate e valid_sheets
                                          (assign F_sheet_names
                                             (\<lambda>t. t\<lparr>sheet_names := Some valid_sheets\<rparr>) s7)))))"

definition translate_excel_with_progress :: "env \<Rightarrow> state \<Rightarrow> state" where
  "translate_excel_with_progress e s =
     (let (out, s1) = try_body e s
      in case out of
           Raise exn \<Rightarrow> fail_with (MsgException exn) s1
         | _ \<Rightarrow> s1)"

text \<open>
  A run: the engine started on a task record, with no workbook loaded yet (every name
  refers to an empty worksheet) and nothing observed yet.
\<close>

definition empty_cell :: cell where
  "empty_cell = \<lparr>cvalue = PNone, cfill = DefaultFill, cfont = DefaultFont,
                  calignment = DefaultAlignment\<rparr>"

definition empty_worksheet :: worksheet where
  "empty_worksheet = \<lparr>cells = (\<lambda>_. empty_cell), max_row = 1, column_width = (\<lambda>_. None),
                       row_height = (\<lambda>_. None)\<rparr>"

definition start_state :: "task \<Rightarrow> state" where
  "start_state t = \<lparr>task = t, sheets = (\<lambda>_. empty_worksheet), columns_to_adjust = [],
                     log = [], calls = 0\<rparr>"

definition run :: "env \<Rightarrow> task \<Rightarrow> state" where
  "run e t = translate_excel_with_progress e (start_state t)"

section \<open>Reading the events of a run\<close>

text \<open>The sleeps among some events, and the task records after the assignments to a field.\<close>

fun sleeps :: "event list \<Rightarrow> nat list" where
  "sleeps [] = []"
| "sleeps (Slept d # evs) = d # sleeps evs"
| "sleeps (_ # evs) = sleeps evs"

fun assigned :: "field \<Rightarrow> event list \<Rightarrow> task list" where
  "assigned fld [] = []"
| "assigned fld (Assigned f t # evs) = (if f = fld then t # assigned fld evs else assigned fld evs)"
| "assigned fld (_ # evs) = assigned fld evs"

fun observed :: "event list \<Rightarrow> task list" where
  "observed [] = []"
| "observed (Assigned f t # evs) = t # observed evs"
| "observed (_ # evs) = observed evs"

section \<open>Example data\<close>

text \<open>
  A workbook of one worksheet \<open>S\<close> with the text of U+62A5 U+544A in D2 and the text
  \<open>F\<close>, newline, U+4FEE in D3, a task on column D, rows 2 to 3, and an environment in
  which the service gives the answer \<open>replies n\<close> to the \<open>n\<close>-th request.
\<close>

definition demo_sheet :: worksheet where
  "demo_sheet =
     \<lparr>cells = (\<lambda>rc. if rc = (2, 4) then empty_cell\<lparr>cvalue := PStr [25253, 21578]\<rparr>
                     else if rc = (3, 4) then empty_cell\<lparr>cvalue := PStr [70, 10, 20462]\<rparr>
                     else empty_cell),
      max_row = 3, column_width = (\<lambda>_. None), row_height = (\<lambda>_. None)\<rparr>"

definition demo_workbook :: workbook where
  "demo_workbook = \<lparr>sheetnames = [[83]], sheet = (\<lambda>_. demo_sheet)\<rparr>"

definition demo_task :: task where
  "demo_task = TranslationTask [116] [102] [[68]] 2 (Some 3) (Some [[83]]) [105] [107]"

definition demo_env :: "(nat \<Rightarrow> reply) \<Rightarrow> env" where
  "demo_env replies =
     \<lparr>isalpha = (\<lambda>c. latin c \<or> cjk c),
      upper = map (\<lambda>c. if 97 \<le> c \<and> c \<le> 122 then c - 32 else c),
      md5_hexdigest = (\<lambda>s. s), draws = (\<lambda>_. 0), send = (\<lambda>n _. replies n),
      percent = (\<lambda>p t. (int p * 100) div int t), clock_start = 0, clock_end = 1,
      load_workbook = Loaded demo_workbook, output_path = (\<lambda>f. f @ [120]), save_ok = True\<rparr>"

definition demo_state :: state where
  "demo_state = (start_state demo_task)\<lparr>sheets := sheet demo_workbook\<rparr>"

section \<open>The frame of a worksheet pass\<close>

text \<open>
  The column indices of the valid names among \<open>cols\<close>, and the statement that between
  two states the cells change at most at the places \<open>T\<close> (worksheet, row and column),
  the column widths at most at \<open>W\<close>, the row heights at most at \<open>H\<close>, and no last row.
\<close>

definition target_columns :: "env \<Rightarrow> ustring list \<Rightarrow> nat set" where
  "target_columns e cols = set (List.map_filter (column_index_from_string (upper e)) cols)"

definition only_changed ::
  "(ustring \<times> int \<times> nat) set \<Rightarrow> (ustring \<times> nat) set \<Rightarrow> (ustring \<times> int) set
     \<Rightarrow> state \<Rightarrow> state \<Rightarrow> bool" where
  "only_changed T W H s s' =
     ((\<forall>w rc. (w, rc) \<notin> T \<longrightarrow> cells (sheets s' w) rc = cells (sheets s w) rc)
      \<and> (\<forall>w. max_row (sheets s' w) = max_row (sheets s w))
      \<and> (\<forall>w c. (w, c) \<notin> W \<longrightarrow> column_width (sheets s' w) c = column_width (sheets s w) c)
      \<and> (\<forall>w r. (w, r) \<notin> H \<longrightarrow> row_height (sheets s' w) r = row_height (sheets s w) r))"

section \<open>Counters and progress along a run\<close>

text \<open>
  The number of cells processed so far, as the progress update computes it, and the
  property of the float computation \<open>int((p / t) * 100)\<close> that the progress relies on:
  it does not decrease when \<open>p\<close> grows, and it is not negative.
\<close>

definition processed :: "task \<Rightarrow> nat" where
  "processed t = translated_cells t + error_cells t + skipped_cells t"

definition percent_monotone :: "env \<Rightarrow> bool" where
  "percent_monotone e =
     ((\<forall>t p q. p \<le> q \<longrightarrow> percent e p t \<le> percent e q t) \<and> (\<forall>p t. 0 \<le> percent e p t))"

text \<open>
  The invariant of the progress field while cells are processed: the values assigned so
  far are in order and at most the current one, which is at most 100 and at most what
  the next update would compute.
\<close>

definition progress_ok :: "env \<Rightarrow> state \<Rightarrow> bool" where
  "progress_ok e s =
     (sorted (map progress (assigned F_progress (log s)))
      \<and> list_all (\<lambda>t. progress t \<le> progress (task s)) (assigned F_progress (log s))
      \<and> progress (task s) \<le> 100
      \<and> (0 < total_cells (task s) \<longrightarrow>
           progress (task s) \<le> percent e (processed (task s)) (total_cells (task s))))"

text \<open>The saves among some events.\<close>

fun saves :: "event list \<Rightarrow> ustring list" where
  "saves [] = []"
| "saves (Saved f # evs) = f # saves evs"
| "saves (_ # evs) = saves evs"

section \<open>The answers that lead to the pacing delay\<close>

text \<open>
  For the text of a cell and what \<open>baidu_translate\<close> returned: the assignment of the
  translation to the cell is made and raises. And for the result of an invocation: the
  loop body goes through to its pacing sleep, that is the invocation raised no
  exception, its answer is not the rate limit, and the assignment does not raise. When
  the result is neither of that kind nor the rate limit, an exception leaves the loop:
  the one of the invocation, or the one of the assignment.
\<close>

definition write_raises :: "ustring \<Rightarrow> ustring option \<Rightarrow> bool" where
  "write_raises cell_value english_text =
     (case english_text of
        Some english \<Rightarrow>
          english \<noteq> [] \<and> english \<noteq> ERROR_54003
          \<and> list_ex illegal_character (take 32767 (english @ [newline] @ cell_value))
      | None \<Rightarrow> False)"

definition paced :: "ustring \<Rightarrow> exception + ustring option \<Rightarrow> bool" where
  "paced cell_value result =
     (case result of
        Inl exn \<Rightarrow> False
      | Inr english_text \<Rightarrow>
          english_text \<noteq> Some ERROR_54003 \<and> \<not> write_raises cell_value english_text)"

definition leaves_with :: "exception + ustring option \<Rightarrow> outcome" where
  "leaves_with result =
     (case result of Inl exn \<Rightarrow> Raise exn | Inr english_text \<Rightarrow> Raise IllegalCharacterError)"

section \<open>Counting the cells to process\<close>

text \<open>
  What the pre-scan and the worksheet pass both test before they count a cell: its value
  is a text that is not blank. \<open>cnt_rows\<close>, \<open>cnt_cols\<close> and \<open>cnt_sheets\<close> count the
  visits of such cells, in the worksheets \<open>S\<close>, over some rows of a column, over the
  valid names among some column names, and over some worksheet names with the rows
  \<open>R w\<close> for the worksheet \<open>w\<close>; a cell is counted once for each visit.
\<close>

definition countable :: "pyval \<Rightarrow> bool" where
  "countable v = (case v of PStr t \<Rightarrow> t \<noteq> [] \<and> strip t \<noteq> [] | _ \<Rightarrow> False)"

definition cnt_rows :: "(ustring \<Rightarrow> worksheet) \<Rightarrow> ustring \<Rightarrow> nat \<Rightarrow> int list \<Rightarrow> nat" where
  "cnt_rows S ws col_index rows =
     length (filter (\<lambda>row_idx. countable (cvalue (cells (S ws) (row_idx, col_index)))) rows)"

fun cnt_cols ::
  "env \<Rightarrow> (ustring \<Rightarrow> worksheet) \<Rightarrow> ustring \<Rightarrow> ustring list \<Rightarrow> int list \<Rightarrow> nat" where
  "cnt_cols e S ws [] rows = 0"
| "cnt_cols e S ws (col_letter # cols) rows =
     (case column_index_from_string (upper e) col_letter of
        None \<Rightarrow> 0
      | Some col_index \<Rightarrow> cnt_rows S ws col_index rows)
     + cnt_cols e S ws cols rows"

fun cnt_sheets ::
  "env \<Rightarrow> (ustring \<Rightarrow> worksheet) \<Rightarrow> (ustring \<Rightarrow> int list) \<Rightarrow> ustring list \<Rightarrow> ustring list
     \<Rightarrow> nat" where
  "cnt_sheets e S R [] cols = 0"
| "cnt_sheets e S R (sheet_name # names) cols =
     cnt_cols e S sheet_name cols (R sheet_name) + cnt_sheets e S R names cols"

text \<open>
  The last row the pre-scan visits in a worksheet, \<open>task.end_row or ws.max_row\<close>, and
  the rows the worksheet pass visits.
\<close>

definition last_scanned :: "worksheet \<Rightarrow> int option \<Rightarrow> int" where
  "last_scanned w erow =
     (case erow of None \<Rightarrow> max_row w | Some n \<Rightarrow> if n = 0 then max_row w else n)"

definition pass_rows :: "(ustring \<Rightarrow> worksheet) \<Rightarrow> int \<Rightarrow> int option \<Rightarrow> ustring \<Rightarrow> int list" where
  "pass_rows S srow erow w = [clamp_start srow..clamp_end (S w) erow]"

text \<open>
  The counters of a task record are within the total, and a part of a run from \<open>s\<close> to
  \<open>s'\<close> stays within \<open>n\<close> more processed cells: every task record it lets observe, and
  the last one, has the total of \<open>s\<close> and at most \<open>n\<close> more processed cells, it leaves
  the job of the task and the last rows as they are, and a cell that is a text to
  process after it was one before it.
\<close>

definition bounded :: "task \<Rightarrow> bool" where
  "bounded t = (processed t \<le> total_cells t)"

definition within :: "nat \<Rightarrow> state \<Rightarrow> state \<Rightarrow> bool" where
  "within n s s' =
     ((\<exists>evs. log s' = log s @ evs
           \<and> list_all (\<lambda>t. total_cells t = total_cells (task s)
                            \<and> processed t \<le> processed (task s) + n) (observed evs))
      \<and> total_cells (task s') = total_cells (task s)
      \<and> processed (task s') \<le> processed (task s) + n
      \<and> columns (task s') = columns (task s)
      \<and> start_row (task s') = start_row (task s)
      \<and> end_row (task s') = end_row (task s)
      \<and> (\<forall>w rc. countable (cvalue (cells (sheets s' w) rc))
                  \<longrightarrow> countable (cvalue (cells (sheets s w) rc)))
      \<and> (\<forall>w. max_row (sheets s' w) = max_row (sheets s w)))"

definition all_bounded :: "state \<Rightarrow> bool" where
  "all_bounded s = (list_all bounded (observed (log s)) \<and> bounded (task s))"

section \<open>Properties of the classifier\<close>

lemma isspace_simps [simp]: "\<not> isspace lparen" "\<not> isspace rparen" "isspace newline"
  by (simp_all add: isspace_def lparen_def rparen_def newline_def)

lemma latin_not_space: "latin c \<Longrightarrow> \<not> isspace c"
  by (auto simp: latin_def isspace_def)

lemma cjk_not_space: "cjk c \<Longrightarrow> \<not> isspace c"
  by (auto simp: cjk_def isspace_def)

text \<open>
  C1. The claim: \<open>is_already_translated\<close> is true exactly for a text with a trailing
  parenthesized group starting with a Latin letter, or with a newline and a Latin letter
  in its trimmed first line. The code tests the first line with \<open>str.isalpha\<close>, which
  holds for every Unicode letter: the two-line text of the ideographs U+4E2D and U+6587
  has no Latin letter and no parenthesis, and is classified as already translated as
  soon as \<open>isalpha\<close> holds for U+4E2D (it does, the character is a letter of category Lo).
\<close>

theorem is_already_translated_ideograph_line:
  assumes "alpha 20013"
  shows "is_already_translated alpha (PStr [20013, newline, 25991])
         \<and> \<not> is_bilingual_spec [20013, newline, 25991]"
  using assms
  by (simp add: is_already_translated_def is_bilingual_spec_def trailing_latin_group_def
      newline_def lparen_def rparen_def strip_def lstrip_def rstrip_def isspace_def latin_def)

theorem is_already_translated_ideograph_line_witness:
  "cjk 20013 \<and> is_already_translated cjk (PStr [20013, newline, 25991])
   \<and> \<not> is_bilingual_spec [20013, newline, 25991]"
  using is_already_translated_ideograph_line [of cjk]
  by (simp add: cjk_def)

lemma rstrip_Cons: "rstrip (c # cs) = (if list_all isspace (c # cs) then [] else c # rstrip cs)"
  by (auto simp: rstrip_def dropWhile_append list_all_iff)

lemma rstrip_idem: "rstrip (rstrip s) = rstrip s"
  by (induction s) (auto simp: rstrip_Cons rstrip_def)

lemma strip_rstrip: "strip (rstrip s) = strip s"
  by (simp add: strip_def rstrip_idem)

lemma match_tail_close:
  "rparen \<notin> set cs \<Longrightarrow> newline \<notin> set cs \<Longrightarrow> match_tail acc (cs @ [rparen]) = Some (rev acc @ cs)"
  by (induction cs arbitrary: acc) auto

lemma match_group2_hit:
  assumes "list_all isspace ws" "latin l" "rparen \<notin> set cs" "newline \<notin> set cs"
  shows "match_group2 (ws @ lparen # l # cs @ [rparen]) = Some (l # cs)"
proof -
  have "dropWhile isspace (ws @ lparen # l # cs @ [rparen]) = lparen # l # cs @ [rparen]"
    using assms(1) by (simp add: dropWhile_append list_all_iff)
  then show ?thesis using assms by (simp add: match_group2_def match_tail_close)
qed

lemma opens_group_dropWhile: "\<not> opens_group s \<Longrightarrow> \<not> opens_group (dropWhile P s)"
  by (induction s rule: opens_group.induct) auto

lemma latin_lparen [simp]: "\<not> latin lparen"
  by (simp add: latin_def lparen_def)

lemma match_group2_miss:
  assumes "\<not> opens_group p" "\<not> list_all isspace p"
  shows "match_group2 (p @ lparen # r) = None"
proof -
  define q where "q = dropWhile isspace p"
  have q: "q \<noteq> []" "\<not> opens_group q"
    using assms by (auto simp: q_def opens_group_dropWhile list_all_iff)
  have d: "dropWhile isspace (p @ lparen # r) = q @ lparen # r"
    using assms(2) by (auto simp: q_def dropWhile_append list_all_iff)
  show ?thesis
  proof (cases q)
    case Nil
    then show ?thesis using q by simp
  next
    case (Cons a q')
    then show ?thesis using q d by (cases q') (auto simp: match_group2_def)
  qed
qed

lemma bracket_match_prefix:
  assumes "latin l" "rparen \<notin> set cs" "newline \<notin> set cs"
  shows "\<not> opens_group p \<Longrightarrow> newline \<notin> set p \<Longrightarrow>
     bracket_match acc (p @ lparen # l # cs @ [rparen]) = Some (rev acc @ rstrip p, l # cs)"
proof (induction p arbitrary: acc)
  case Nil
  show ?case using match_group2_hit [OF _ assms, of "[]"] by (simp add: rstrip_def)
next
  case (Cons c p)
  have og: "\<not> opens_group p" using Cons.prems(1) by (cases p) auto
  show ?case
  proof (cases "list_all isspace (c # p)")
    case True
    then show ?thesis using match_group2_hit [OF True assms] by (simp add: rstrip_Cons)
  next
    case False
    have "match_group2 ((c # p) @ lparen # l # cs @ [rparen]) = None"
      using match_group2_miss [OF Cons.prems(1) False] .
    then show ?thesis using Cons.IH [OF og, of "c # acc"] Cons.prems(2) False
      by (simp add: rstrip_Cons)
  qed
qed

lemma paren_tail_close: "newline \<notin> set cs \<Longrightarrow> paren_tail (cs @ [rparen])"
  by (induction cs) auto

lemma paren_search_append: "paren_search ys \<Longrightarrow> paren_search (xs @ ys)"
proof (induction xs)
  case Nil then show ?case by simp
next
  case (Cons x xs)
  then have "paren_search (xs @ ys)" by simp
  then show ?case by (cases "xs @ ys") auto
qed

lemma paren_search_group:
  "latin l \<Longrightarrow> newline \<notin> set cs \<Longrightarrow> paren_search (p @ lparen # l # cs @ [rparen])"
  by (rule paren_search_append) (simp add: paren_tail_close)

lemma in_set_strip: "x \<in> set s \<Longrightarrow> \<not> isspace x \<Longrightarrow> x \<in> set (strip s)"
proof -
  have d: "x \<in> set xs \<Longrightarrow> \<not> isspace x \<Longrightarrow> x \<in> set (dropWhile isspace xs)" for xs
    by (induction xs) auto
  assume a: "x \<in> set s" "\<not> isspace x"
  have "x \<in> set (dropWhile isspace (rev s))" using d [of "rev s"] a by simp
  then have "x \<in> set (rev (dropWhile isspace (rev s)))" by simp
  then show ?thesis using d a(2) by (simp add: strip_def lstrip_def rstrip_def)
qed

lemma split_nl_first:
  "split_nl s \<noteq> [] \<and> split_nl s ! 0 = takeWhile (\<lambda>c. c \<noteq> newline) s
   \<and> (newline \<in> set s \<longrightarrow> length (split_nl s) \<ge> 2)"
  by (induction s) (auto split: list.split)

lemma first_line_letter:
  assumes "newline \<notin> set p" "latin l" "alpha l" "newline \<in> set cs"
  shows "is_already_translated alpha (PStr (p @ lparen # l # cs @ [rparen]))"
proof -
  let ?s = "p @ lparen # l # cs @ [rparen]"
  have nl: "l \<noteq> newline" "lparen \<noteq> newline" using assms(2)
    by (auto simp: latin_def newline_def lparen_def)
  have "takeWhile (\<lambda>c. c \<noteq> newline) (p @ ys) = p @ takeWhile (\<lambda>c. c \<noteq> newline) ys" for ys
    using assms(1) by (intro takeWhile_append2) auto
  then have "takeWhile (\<lambda>c. c \<noteq> newline) ?s = p @ lparen # l # takeWhile (\<lambda>c. c \<noteq> newline) (cs @ [rparen])"
    using nl by simp
  then have "l \<in> set (split_nl ?s ! 0)" using split_nl_first [of ?s] by simp
  then have "l \<in> set (strip (split_nl ?s ! 0))"
    using in_set_strip latin_not_space [OF assms(2)] by blast
  then have "list_ex alpha (strip (split_nl ?s ! 0))" using assms(3) by (auto simp: list_ex_iff)
  moreover have "newline \<in> set ?s" "length (split_nl ?s) \<ge> 2"
    using assms(4) split_nl_first [of ?s] by auto
  ultimately show ?thesis by (simp add: is_already_translated_def Let_def)
qed

text \<open>
  C2. The claim: every text \<open>prefix(content)\<close>, with the content starting with a Latin
  letter and free of parentheses, is classified as already translated and is rewritten
  to the content, a newline, and the prefix. The classification holds on all these
  texts, the letter being one for \<open>str.isalpha\<close> as every Latin letter is. The rewrite
  does not: the code trims both groups, its lazy pattern opens the group at the first
  left parenthesis followed by a letter or by whitespace, and the \<open>.\<close> of its pattern
  stops at a newline. As amended: the text is classified as already translated; and
  when no left parenthesis of the prefix is directly followed by a Latin letter or
  whitespace, and the content has no newline, it is rewritten to the trimmed content, a
  newline, and the trimmed prefix.
\<close>

theorem bracket_form_rewritten:
  assumes "newline \<notin> set p" "latin l" "alpha l" "lparen \<notin> set cs" "rparen \<notin> set cs"
  shows "is_already_translated alpha (PStr (p @ [lparen] @ (l # cs) @ [rparen]))
    \<and> (\<not> opens_group p \<and> newline \<notin> set cs \<longrightarrow>
         check_and_adjust_translation_order (PStr (p @ [lparen] @ (l # cs) @ [rparen]))
           = PStr (strip (l # cs) @ [newline] @ strip p))"
proof (intro conjI impI)
  show "is_already_translated alpha (PStr (p @ [lparen] @ (l # cs) @ [rparen]))"
  proof (cases "newline \<in> set cs")
    case True
    then show ?thesis using first_line_letter [of p l alpha cs] assms(1,2,3) by simp
  next
    case False
    then show ?thesis using paren_search_group [OF assms(2), of cs p]
      by (simp add: is_already_translated_def)
  qed
next
  assume h: "\<not> opens_group p \<and> newline \<notin> set cs"
  then show "check_and_adjust_translation_order (PStr (p @ [lparen] @ (l # cs) @ [rparen]))
           = PStr (strip (l # cs) @ [newline] @ strip p)"
    using assms bracket_match_prefix [of l cs p "[]"]
    by (simp add: check_and_adjust_translation_order_def strip_rstrip)
qed

theorem bracket_form_rewritten_witness:
  "is_already_translated latin (PStr ([20013, 32] @ [lparen] @ (97 # [98, 32]) @ [rparen]))
    \<and> check_and_adjust_translation_order (PStr ([20013, 32] @ [lparen] @ (97 # [98, 32]) @ [rparen]))
       = PStr ([97, 98] @ [newline] @ [20013])"
  using bracket_form_rewritten [of "[20013, 32]" 97 latin "[98, 32]"]
  by (simp add: newline_def lparen_def rparen_def latin_def isspace_def strip_def lstrip_def
      rstrip_def)

text \<open>
  The claim as stated fails on a prefix that ends with a space: the text of U+4E2D, a
  space and \<open>(a)\<close> is rewritten to \<open>a\<close>, newline, U+4E2D, without the space.
\<close>

theorem bracket_form_untrimmed_counterexample:
  "newline \<notin> set [20013, 32] \<and> latin 97
   \<and> check_and_adjust_translation_order (PStr ([20013, 32] @ [lparen] @ [97] @ [rparen]))
       = PStr ([97] @ [newline] @ [20013])
   \<and> check_and_adjust_translation_order (PStr ([20013, 32] @ [lparen] @ [97] @ [rparen]))
       \<noteq> PStr ([97] @ [newline] @ [20013, 32])"
  by (simp add: check_and_adjust_translation_order_def match_group2_def isspace_def
      lparen_def rparen_def latin_def strip_def lstrip_def rstrip_def newline_def)

lemma split_nl_nonempty: "split_nl s \<noteq> []"
  by (induction s) (auto split: list.splits)

lemma split_nl_no_newline: "newline \<notin> set s \<Longrightarrow> split_nl s = [s]"
  by (induction s) auto

lemma in_set_dropWhile: "x \<in> set xs \<Longrightarrow> \<not> P x \<Longrightarrow> x \<in> set (dropWhile P xs)"
  by (induction xs) auto

lemma list_ex_cjk_strip: "list_ex cjk (strip l) = list_ex cjk l"
proof -
  have "\<And>x. cjk x \<Longrightarrow> x \<in> set l \<Longrightarrow> x \<in> set (strip l)"
    unfolding strip_def lstrip_def rstrip_def
    by (intro in_set_dropWhile) (auto simp: cjk_not_space intro: in_set_dropWhile)
  moreover have "set (strip l) \<subseteq> set l"
    unfolding strip_def lstrip_def rstrip_def
    by (metis set_dropWhileD set_rev subsetI)
  ultimately show ?thesis by (auto simp: list_ex_iff)
qed

lemma nonblank_two_newline: "length (nonblank_lines s) \<ge> 2 \<Longrightarrow> newline \<in> set s"
  by (rule ccontr) (auto simp: nonblank_lines_def split_nl_no_newline split: if_splits)

text \<open>
  C3. The claim: a two-line text with a pure CJK first line and no CJK in the second has
  its lines swapped, a two-line text in the other order is unchanged, and a text of
  three or more lines is unchanged. In the code the bracket pattern is tried first, and
  the lines are counted after blank lines are dropped, each one trimmed. As amended: for
  a text that the bracket pattern does not match, when exactly two lines are not blank,
  the first with a CJK character and the second without, the result is the trimmed
  second line, a newline, the trimmed first line; when exactly two lines are not blank,
  the first without and the second with a CJK character, the text is unchanged; when
  three or more lines are not blank, the text is unchanged.
\<close>

theorem two_line_order:
  assumes "bracket_match [] s = None"
  shows "(nonblank_lines s = [l1, l2] \<and> list_ex cjk l1 \<and> \<not> list_ex cjk l2 \<longrightarrow>
            check_and_adjust_translation_order (PStr s) = PStr (strip l2 @ [newline] @ strip l1))
       \<and> (nonblank_lines s = [l1, l2] \<and> \<not> list_ex cjk l1 \<and> list_ex cjk l2 \<longrightarrow>
            check_and_adjust_translation_order (PStr s) = PStr s)
       \<and> (length (nonblank_lines s) \<ge> 3 \<longrightarrow>
            check_and_adjust_translation_order (PStr s) = PStr s)"
proof (intro conjI impI)
  assume a: "nonblank_lines s = [l1, l2] \<and> list_ex cjk l1 \<and> \<not> list_ex cjk l2"
  then have "newline \<in> set s" using nonblank_two_newline [of s] by simp
  then show "check_and_adjust_translation_order (PStr s) = PStr (strip l2 @ [newline] @ strip l1)"
    using a assms
    by (simp add: check_and_adjust_translation_order_def nonblank_lines_def [symmetric] list_ex_cjk_strip)
next
  show "nonblank_lines s = [l1, l2] \<and> \<not> list_ex cjk l1 \<and> list_ex cjk l2 \<Longrightarrow> check_and_adjust_translation_order (PStr s) = PStr s"
    using assms
    by (simp add: check_and_adjust_translation_order_def nonblank_lines_def [symmetric] list_ex_cjk_strip)
next
  show "length (nonblank_lines s) \<ge> 3 \<Longrightarrow> check_and_adjust_translation_order (PStr s) = PStr s"
    using assms
    by (simp add: check_and_adjust_translation_order_def nonblank_lines_def [symmetric])
qed

theorem two_line_order_witness:
  "check_and_adjust_translation_order (PStr [20013, 25991, newline, 32, 97, 98]) = PStr [97, 98, newline, 20013, 25991]
   \<and> check_and_adjust_translation_order (PStr [97, newline, 20013]) = PStr [97, newline, 20013]
   \<and> check_and_adjust_translation_order (PStr [97, newline, 20013, newline, 98]) = PStr [97, newline, 20013, newline, 98]"
proof -
  have e: "bracket_match [] [20013, 25991, newline, 32, 97, 98] = None"
    "bracket_match [] [97, newline, 20013] = None"
    "bracket_match [] [97, newline, 20013, newline, 98] = None"
    by (simp_all add: match_group2_def isspace_def newline_def lparen_def)
  have n: "nonblank_lines [20013, 25991, newline, 32, 97, 98] = [[20013, 25991], [32, 97, 98]]"
    "nonblank_lines [97, newline, 20013] = [[97], [20013]]"
    "length (nonblank_lines [97, newline, 20013, newline, 98]) \<ge> 3"
    by (simp_all add: nonblank_lines_def newline_def strip_def lstrip_def rstrip_def isspace_def)
  show ?thesis
    using two_line_order [OF e(1), of "[20013, 25991]" "[32, 97, 98]"] two_line_order [OF e(2), of "[97]" "[20013]"]
      two_line_order [OF e(3)] n
    by (simp add: cjk_def strip_def lstrip_def rstrip_def isspace_def)
qed

text \<open>
  The claim as stated fails on the two-line text of U+4E2D and \<open>(a)\<close>, which the
  bracket pattern rewrites to \<open>a\<close>, newline, U+4E2D, and on the three-line text of
  U+4E2D, an empty line and \<open>a\<close>, which is rewritten to \<open>a\<close>, newline, U+4E2D.
\<close>

theorem two_line_order_counterexample:
  "split_nl [20013, newline, lparen, 97, rparen] = [[20013], [lparen, 97, rparen]]
   \<and> list_all cjk [20013] \<and> \<not> list_ex cjk [lparen, 97, rparen]
   \<and> check_and_adjust_translation_order (PStr [20013, newline, lparen, 97, rparen])
       \<noteq> PStr ([lparen, 97, rparen] @ [newline] @ [20013])
   \<and> length (split_nl [20013, newline, newline, 97]) = 3
   \<and> check_and_adjust_translation_order (PStr [20013, newline, newline, 97])
       \<noteq> PStr [20013, newline, newline, 97]"
  by (simp add: check_and_adjust_translation_order_def match_group2_def isspace_def
      lparen_def rparen_def latin_def strip_def lstrip_def rstrip_def newline_def cjk_def)

section \<open>Properties of the translation client\<close>

lemma str_40000: "str 40000 = [52, 48, 48, 48, 48]"
  by (simp add: str_def digits.simps [of 40000] digits.simps [of 4000] digits.simps [of 400]
      digits.simps [of 40] digits.simps [of 4])

lemma str_65536: "str 65536 = [54, 53, 53, 51, 54]"
  by (simp add: str_def digits.simps [of 65536] digits.simps [of 6553] digits.simps [of 655]
      digits.simps [of 65] digits.simps [of 6])

lemma str_32768: "str 32768 = [51, 50, 55, 54, 56]"
  by (simp add: str_def digits.simps [of 32768] digits.simps [of 3276] digits.simps [of 327]
      digits.simps [of 32] digits.simps [of 3])

text \<open>
  C8. The claim: every invocation of \<open>baidu_translate\<close> draws a salt in the half-open
  range from 32768 to 65536 and signs the request with the MD5 hex digest of
  \<open>app_id + query + str(salt) + app_key\<close>. \<open>random.randint\<close> includes its upper
  bound. As amended: whatever the generator gives and whatever the service answers, the
  request that an invocation makes carries a salt of the closed range from 32768 to
  65536 and, as its signature, the digest of the application id, the query, the decimal
  digits of that salt and the key, in this order (an invocation makes no request only
  when that text cannot be encoded).
\<close>

theorem baidu_translate_request_signed:
  assumes "fst (baidu_translate md5 service r query aid akey) = Some p"
  shows "32768 \<le> param_salt p \<and> param_salt p \<le> 65536
     \<and> param_sign p = md5 (aid @ query @ str (param_salt p) @ akey)
     \<and> param_q p = query \<and> param_appid p = aid"
proof -
  define salt where "salt = randint 32768 65536 r"
  have b: "32768 \<le> salt \<and> salt \<le> 65536"
  proof -
    have "r mod 32769 < 32769" by simp
    then show ?thesis by (simp add: salt_def randint_def)
  qed
  have "p = \<lparr>param_q = query, param_from = ascii ''zh'', param_to = ascii ''en'',
              param_appid = aid, param_salt = salt,
              param_sign = md5 (aid @ query @ str salt @ akey)\<rparr>"
    using assms unfolding baidu_translate_def salt_def [symmetric]
    by (simp add: Let_def split: if_splits)
  then show ?thesis using b by simp
qed

theorem baidu_translate_request_signed_witness:
  "map_option param_salt
     (fst (baidu_translate (\<lambda>s. s) (\<lambda>_. NotJson) 7232 [20013] [49] [50])) = Some 40000
   \<and> map_option param_sign
     (fst (baidu_translate (\<lambda>s. s) (\<lambda>_. NotJson) 7232 [20013] [49] [50]))
       = Some [49, 20013, 52, 48, 48, 48, 48, 50]"
proof -
  have m: "fst (baidu_translate (\<lambda>s. s) (\<lambda>_. NotJson) 7232 [20013] [49] [50])
      = Some \<lparr>param_q = [20013], param_from = ascii ''zh'', param_to = ascii ''en'',
              param_appid = [49], param_salt = 40000,
              param_sign = [49, 20013, 52, 48, 48, 48, 48, 50]\<rparr>"
    by (simp add: baidu_translate_def randint_def str_40000 surrogate_def)
  show ?thesis using baidu_translate_request_signed [OF m] by (simp add: m)
qed

text \<open>
  The claim as stated fails when the generator gives 32768: the salt of the request is
  65536, the upper bound that \<open>randint\<close> includes.
\<close>

theorem baidu_translate_salt_counterexample:
  "map_option (\<lambda>p. param_salt p < 65536)
     (fst (baidu_translate (\<lambda>s. s) (\<lambda>_. NotJson) 32768 [] [] [])) = Some False"
  by (simp add: baidu_translate_def randint_def str_65536 surrogate_def)

section \<open>Properties of the worksheet processor\<close>

lemma sleeps_append [simp]: "sleeps (xs @ ys) = sleeps xs @ sleeps ys"
  by (induction xs rule: sleeps.induct) auto

lemma assigned_append [simp]: "assigned f (xs @ ys) = assigned f xs @ assigned f ys"
  by (induction f xs rule: assigned.induct) auto

lemma observed_append [simp]: "observed (xs @ ys) = observed xs @ observed ys"
  by (induction xs rule: observed.induct) auto

lemma strip_nonempty: "strip v \<noteq> [] \<Longrightarrow> v \<noteq> []"
  by (auto simp: strip_def lstrip_def rstrip_def)

lemma update_progress_calls [simp]: "calls (update_progress e s) = calls s"
  by (simp add: update_progress_def assign_def Let_def)

lemma update_progress_sleeps [simp]: "sleeps (log (update_progress e s)) = sleeps (log s)"
  by (simp add: update_progress_def assign_def Let_def)

lemma update_progress_sheets [simp]: "sheets (update_progress e s) = sheets s"
  by (simp add: update_progress_def assign_def Let_def)

lemma update_progress_log:
  "\<exists>evs. log (update_progress e s) = log s @ evs \<and> sleeps evs = []"
  by (simp add: update_progress_def assign_def Let_def)

text \<open>The assignment of a text to a cell either raises, with nothing changed, or is made.\<close>

lemma set_value_cases:
  "set_value ws rc v s =
     (if list_ex illegal_character (take 32767 v) then (Raise IllegalCharacterError, s)
      else (Normal, update_cell ws rc (\<lambda>c. c\<lparr>cvalue := PStr (take 32767 v)\<rparr>) s))"
  by (simp add: set_value_def Let_def)

lemma skip_cell_calls [simp]: "calls (snd (skip_cell e ws rc cv s)) = calls s"
  by (simp add: skip_cell_def set_value_cases assign_def update_cell_def Let_def
      split: pyval.split)

lemma skip_cell_sleeps [simp]: "sleeps (log (snd (skip_cell e ws rc cv s))) = sleeps (log s)"
  by (simp add: skip_cell_def set_value_cases assign_def update_cell_def Let_def
      split: pyval.split)

lemma fail_cell_calls [simp]: "calls (fail_cell e ws rc s) = calls s"
  by (simp add: fail_cell_def assign_def update_cell_def Let_def)

lemma fail_cell_sleeps [simp]: "sleeps (log (fail_cell e ws rc s)) = sleeps (log s)"
  by (simp add: fail_cell_def assign_def update_cell_def Let_def)

lemma write_translation_raises:
  "write_raises cv et \<Longrightarrow> write_translation ws rc cv et s = (Raise IllegalCharacterError, s)"
  by (cases et) (simp_all add: write_raises_def write_translation_def set_value_cases
      del: take_append)

lemma write_translation_normal:
  assumes "\<not> write_raises cv et"
  shows "fst (write_translation ws rc cv et s) = Normal"
    and "calls (snd (write_translation ws rc cv et s)) = calls s"
    and "\<exists>evs. log (snd (write_translation ws rc cv et s)) = log s @ evs \<and> sleeps evs = []"
proof -
  show "fst (write_translation ws rc cv et s) = Normal"
    using assms
    by (cases et) (auto simp add: write_raises_def write_translation_def set_value_cases
        Let_def simp del: take_append)
  show "calls (snd (write_translation ws rc cv et s)) = calls s"
    using assms
    by (cases et) (auto simp add: write_raises_def write_translation_def set_value_cases
        assign_def update_cell_def Let_def simp del: take_append split: option.split)
  show "\<exists>evs. log (snd (write_translation ws rc cv et s)) = log s @ evs \<and> sleeps evs = []"
    using assms
    by (cases et) (auto simp add: write_raises_def write_translation_def set_value_cases
        assign_def update_cell_def Let_def simp del: take_append split: option.split)
qed

lemma finish_cell_raises:
  "write_raises cv et \<Longrightarrow> finish_cell e ws rc cv et s = (Raise IllegalCharacterError, s)"
  by (simp add: finish_cell_def write_translation_raises)

lemma finish_cell_normal:
  assumes "\<not> write_raises cv et"
  shows "fst (finish_cell e ws rc cv et s) = Normal"
    and "calls (snd (finish_cell e ws rc cv et s)) = calls s"
    and "\<exists>evs. log (snd (finish_cell e ws rc cv et s)) = log s @ evs @ [Slept 15]
           \<and> sleeps evs = []"
proof -
  define s1 where "s1 = snd (write_translation ws rc cv et s)"
  have w: "write_translation ws rc cv et s = (Normal, s1)"
    using write_translation_normal(1) [OF assms, of ws rc s] unfolding s1_def
    by (metis prod.collapse)
  have f: "finish_cell e ws rc cv et s = (Normal, sleep 15 (update_progress e s1))"
    by (simp add: finish_cell_def w)
  show "fst (finish_cell e ws rc cv et s) = Normal" by (simp add: f)
  show "calls (snd (finish_cell e ws rc cv et s)) = calls s"
    using write_translation_normal(2) [OF assms, of ws rc s]
    by (simp add: f sleep_def s1_def)
  obtain evs1 where e1: "log s1 = log s @ evs1" "sleeps evs1 = []"
    using write_translation_normal(3) [OF assms, of ws rc s] unfolding s1_def by blast
  obtain evs2 where e2: "log (update_progress e s1) = log s1 @ evs2" "sleeps evs2 = []"
    using update_progress_log [of e s1] by blast
  have "log (snd (finish_cell e ws rc cv et s)) = log s @ (evs1 @ evs2) @ [Slept 15]"
    by (simp add: f sleep_def e1 e2)
  moreover have "sleeps (evs1 @ evs2) = []" by (simp add: e1 e2)
  ultimately show "\<exists>evs. log (snd (finish_cell e ws rc cv et s)) = log s @ evs @ [Slept 15]
           \<and> sleeps evs = []" by blast
qed

lemma finish_cell_paced:
  assumes "\<not> write_raises cv et" "finish_cell e ws rc cv et s = (out, s')"
  shows "out = Normal \<and> calls s' = calls s \<and> last (log s') = Slept 15
       \<and> sleeps (log s') = sleeps (log s) @ [15]"
proof -
  have s': "s' = snd (finish_cell e ws rc cv et s)" "out = fst (finish_cell e ws rc cv et s)"
    by (simp_all add: assms(2))
  obtain evs where "log s' = log s @ evs @ [Slept 15]" "sleeps evs = []"
    using finish_cell_normal(3) [OF assms(1), of e ws rc s] unfolding s' by blast
  then show ?thesis using finish_cell_normal(1,2) [OF assms(1), of e ws rc s] s' by simp
qed

lemma call_translate_result:
  "fst (call_translate e q s)
     = snd (baidu_translate (md5_hexdigest e) (send e (calls s)) (draws e (calls s)) q
              (app_id (task s)) (app_key (task s)))"
  by (simp add: call_translate_def case_prod_beta)

lemma call_translate_facts [simp]:
  "calls (snd (call_translate e q s)) = calls s + 1"
  "sleeps (log (snd (call_translate e q s))) = sleeps (log s)"
  "task (snd (call_translate e q s)) = task s"
  "sheets (snd (call_translate e q s)) = sheets s"
  "columns_to_adjust (snd (call_translate e q s)) = columns_to_adjust s"
  by (simp_all add: call_translate_def case_prod_beta split: option.split)

text \<open>The branches of a cell that is to be translated.\<close>

lemma translate_cell_unfold:
  assumes "fst (call_translate e cv s) = first" "snd (call_translate e cv s) = s2"
    and "s4 = sleep 100 (assign F_message (\<lambda>t. t\<lparr>message := MsgRateLimitWait\<rparr>) s2)"
    and "fst (call_translate e cv s4) = second" "snd (call_translate e cv s4) = s5"
  shows "translate_cell e ws rc cv s =
     (case first of
        Inl exn \<Rightarrow> (Raise exn, s2)
      | Inr english_text \<Rightarrow>
          if english_text = Some ERROR_54003 then
            (case second of
               Inl exn \<Rightarrow> (Raise exn, s5)
             | Inr english_text2 \<Rightarrow>
                 if english_text2 = Some ERROR_54003
                 then (Normal, fail_cell e ws rc s5)
                 else finish_cell e ws rc cv english_text2 s5)
          else finish_cell e ws rc cv english_text s2)"
  unfolding assms(1,2,4,5) [symmetric] assms(3)
  by (simp add: translate_cell_def case_prod_beta Let_def split: sum.split)

lemma retry_state [simp]:
  "calls (sleep 100 (assign F_message f s)) = calls s"
  "app_id (task (sleep 100 (assign F_message (\<lambda>t. t\<lparr>message := m\<rparr>) s))) = app_id (task s)"
  "app_key (task (sleep 100 (assign F_message (\<lambda>t. t\<lparr>message := m\<rparr>) s))) = app_key (task s)"
  "sleeps (log (sleep 100 (assign F_message f s))) = sleeps (log s) @ [100]"
  by (simp_all add: sleep_def assign_def)


lemma translate_cell_retry:
  assumes "snd (baidu_translate (md5_hexdigest e) (send e (calls s)) (draws e (calls s))
                  cv (app_id (task s)) (app_key (task s))) = Inr (Some ERROR_54003)"
    and "second = snd (baidu_translate (md5_hexdigest e) (send e (calls s + 1))
                         (draws e (calls s + 1)) cv (app_id (task s)) (app_key (task s)))"
    and "translate_cell e ws rc cv s = (out, s')"
  shows "calls s' = calls s + 2"
    and "paced cv second \<Longrightarrow>
           out = Normal \<and> last (log s') = Slept 15
           \<and> sleeps (log s') = sleeps (log s) @ [100, 15]"
    and "second = Inr (Some ERROR_54003) \<Longrightarrow>
           out = Normal \<and> sleeps (log s') = sleeps (log s) @ [100]
           \<and> s' = fail_cell e ws rc
                    (snd (call_translate e cv
                       (sleep 100 (assign F_message (\<lambda>t. t\<lparr>message := MsgRateLimitWait\<rparr>)
                          (snd (call_translate e cv s))))))"
    and "\<not> paced cv second \<Longrightarrow> second \<noteq> Inr (Some ERROR_54003) \<Longrightarrow>
           out = leaves_with second \<and> sleeps (log s') = sleeps (log s) @ [100]"
proof -
  define s2 where "s2 = snd (call_translate e cv s)"
  define s4 where "s4 = sleep 100 (assign F_message (\<lambda>t. t\<lparr>message := MsgRateLimitWait\<rparr>) s2)"
  define s5 where "s5 = snd (call_translate e cv s4)"
  have r: "fst (call_translate e cv s) = Inr (Some ERROR_54003)"
    by (simp add: assms(1) call_translate_result)
  have s4: "calls s4 = calls s + 1" "app_id (task s4) = app_id (task s)"
    "app_key (task s4) = app_key (task s)" "sleeps (log s4) = sleeps (log s) @ [100]"
    by (simp_all add: s4_def s2_def)
  have r2: "fst (call_translate e cv s4) = second"
    by (simp add: assms(2) call_translate_result s4)
  have s5: "calls s5 = calls s + 2" "sleeps (log s5) = sleeps (log s) @ [100]"
    by (simp_all add: s5_def s4)
  note u = translate_cell_unfold [OF r s2_def [symmetric] s4_def r2 s5_def [symmetric], of ws rc]
  have raised: "out = Raise exn \<and> s' = s5" if "second = Inl exn" for exn
    using assms(3) that by (simp add: u)
  have twice: "out = Normal \<and> s' = fail_cell e ws rc s5" if "second = Inr (Some ERROR_54003)"
    using assms(3) that by (simp add: u)
  have fin: "finish_cell e ws rc cv et s5 = (out, s')"
    if "second = Inr et" "et \<noteq> Some ERROR_54003" for et
    using assms(3) that by (simp add: u)
  show "calls s' = calls s + 2"
  proof (cases second)
    case (Inl exn)
    then show ?thesis using raised s5 by simp
  next
    case (Inr et)
    show ?thesis
    proof (cases "et = Some ERROR_54003")
      case True
      then show ?thesis using twice Inr s5 by simp
    next
      case ne: False
      show ?thesis
      proof (cases "write_raises cv et")
        case True
        then show ?thesis using fin [OF Inr ne] s5 by (simp add: finish_cell_raises)
      next
        case False
        then show ?thesis using finish_cell_paced [OF False fin [OF Inr ne]] s5 by simp
      qed
    qed
  qed
  show "out = Normal \<and> last (log s') = Slept 15 \<and> sleeps (log s') = sleeps (log s) @ [100, 15]"
    if p: "paced cv second"
  proof -
    obtain et where et: "second = Inr et" "et \<noteq> Some ERROR_54003" "\<not> write_raises cv et"
      using p by (cases second) (auto simp: paced_def)
    show ?thesis using finish_cell_paced [OF et(3) fin [OF et(1,2)]] s5 by simp
  qed
  show "out = Normal \<and> sleeps (log s') = sleeps (log s) @ [100]
           \<and> s' = fail_cell e ws rc
                    (snd (call_translate e cv
                       (sleep 100 (assign F_message (\<lambda>t. t\<lparr>message := MsgRateLimitWait\<rparr>)
                          (snd (call_translate e cv s))))))"
    if "second = Inr (Some ERROR_54003)"
    using twice [OF that] s5 by (simp add: s5_def s4_def s2_def)
  show "out = leaves_with second \<and> sleeps (log s') = sleeps (log s) @ [100]"
    if p: "\<not> paced cv second" and ne: "second \<noteq> Inr (Some ERROR_54003)"
  proof (cases second)
    case (Inl exn)
    then show ?thesis using raised [OF Inl] s5 by (simp add: leaves_with_def)
  next
    case (Inr et)
    then have w: "write_raises cv et" "et \<noteq> Some ERROR_54003"
      using p ne by (simp_all add: paced_def)
    show ?thesis using fin [OF Inr w(2)] s5 Inr
      by (simp add: finish_cell_raises [OF w(1)] leaves_with_def)
  qed
qed

text \<open>The loop body on a text cell that is not blank.\<close>

lemma process_cell_text:
  assumes "cvalue (cells (sheets s ws) (row_idx, col_index)) = PStr v" "strip v \<noteq> []"
    and "s1 = assign F_current_cell (\<lambda>t. t\<lparr>current_cell := col_letter @ str row_idx\<rparr>) s"
  shows "process_cell e ws col_letter col_index row_idx s =
     (if is_already_translated (isalpha e) (PStr (strip v))
      then skip_cell e ws (row_idx, col_index) (strip v) s1
      else translate_cell e ws (row_idx, col_index) (strip v) s1)"
  using assms strip_nonempty [OF assms(2)] by (simp add: process_cell_def Let_def)

lemma current_cell_state [simp]:
  "calls (assign F_current_cell f s) = calls s"
  "app_id (task (assign F_current_cell (\<lambda>t. t\<lparr>current_cell := c\<rparr>) s)) = app_id (task s)"
  "app_key (task (assign F_current_cell (\<lambda>t. t\<lparr>current_cell := c\<rparr>) s)) = app_key (task s)"
  "sleeps (log (assign F_current_cell f s)) = sleeps (log s)"
  by (simp_all add: assign_def)

text \<open>
  C6. When the translation of a cell is answered by the rate limit and the single retry
  is too, the loop body goes on to the next cell with \<open>error_cells\<close> incremented
  exactly once (one assignment, by one) and the other counters as they were, the cell
  has a solid fill of colour \<open>FFFF00\<close> and a bold font of colour \<open>FF0000\<close> and keeps
  its value, and the cell's only sleep is the cooldown of ten seconds.
\<close>

theorem rate_limited_twice:
  assumes "cvalue (cells (sheets s ws) (row_idx, col_index)) = PStr v" "strip v \<noteq> []"
    and "\<not> is_already_translated (isalpha e) (PStr (strip v))"
    and "snd (baidu_translate (md5_hexdigest e) (send e (calls s)) (draws e (calls s))
                (strip v) (app_id (task s)) (app_key (task s))) = Inr (Some ERROR_54003)"
    and "snd (baidu_translate (md5_hexdigest e) (send e (calls s + 1)) (draws e (calls s + 1))
                (strip v) (app_id (task s)) (app_key (task s))) = Inr (Some ERROR_54003)"
    and "process_cell e ws col_letter col_index row_idx s = (out, s')"
  shows "out = Normal
       \<and> error_cells (task s') = error_cells (task s) + 1
       \<and> length (assigned F_error_cells (log s')) = length (assigned F_error_cells (log s)) + 1
       \<and> translated_cells (task s') = translated_cells (task s)
       \<and> skipped_cells (task s') = skipped_cells (task s)
       \<and> cfill (cells (sheets s' ws) (row_idx, col_index))
           = PatternFill (ascii ''FFFF00'') (ascii ''FFFF00'') (ascii ''solid'')
       \<and> cfont (cells (sheets s' ws) (row_idx, col_index)) = Font (ascii ''FF0000'') True
       \<and> cvalue (cells (sheets s' ws) (row_idx, col_index)) = PStr v
       \<and> sleeps (log s') = sleeps (log s) @ [100]"
proof -
  define s1 where "s1 = assign F_current_cell (\<lambda>t. t\<lparr>current_cell := col_letter @ str row_idx\<rparr>) s"
  have t: "translate_cell e ws (row_idx, col_index) (strip v) s1 = (out, s')"
    using process_cell_text [OF assms(1,2) s1_def, of e] assms(3,6) by simp
  have a: "snd (baidu_translate (md5_hexdigest e) (send e (calls s1)) (draws e (calls s1))
                  (strip v) (app_id (task s1)) (app_key (task s1))) = Inr (Some ERROR_54003)"
    using assms(4) by (simp add: s1_def)
  have b: "snd (baidu_translate (md5_hexdigest e) (send e (calls s1 + 1)) (draws e (calls s1 + 1))
                  (strip v) (app_id (task s1)) (app_key (task s1))) = Inr (Some ERROR_54003)"
    using assms(5) by (simp add: s1_def)
  have r: "out = Normal \<and> sleeps (log s') = sleeps (log s1) @ [100]
      \<and> s' = fail_cell e ws (row_idx, col_index)
               (snd (call_translate e (strip v)
                  (sleep 100 (assign F_message (\<lambda>t. t\<lparr>message := MsgRateLimitWait\<rparr>)
                     (snd (call_translate e (strip v) s1))))))"
    using translate_cell_retry(3) [OF a refl t] b by simp
  then have s': "s' = fail_cell e ws (row_idx, col_index)
               (snd (call_translate e (strip v)
                  (sleep 100 (assign F_message (\<lambda>t. t\<lparr>message := MsgRateLimitWait\<rparr>)
                     (snd (call_translate e (strip v) s1))))))" by simp
  have "error_cells (task s') = error_cells (task s) + 1"
    "translated_cells (task s') = translated_cells (task s)"
    "skipped_cells (task s') = skipped_cells (task s)"
    by (simp_all add: s' s1_def fail_cell_def update_progress_def assign_def sleep_def
        update_cell_def Let_def)
  moreover have "length (assigned F_error_cells (log s')) = length (assigned F_error_cells (log s)) + 1"
    by (simp add: s' s1_def fail_cell_def update_progress_def assign_def sleep_def
        update_cell_def call_translate_def case_prod_beta Let_def split: option.split)
  moreover have "cfill (cells (sheets s' ws) (row_idx, col_index))
           = PatternFill (ascii ''FFFF00'') (ascii ''FFFF00'') (ascii ''solid'')"
    "cfont (cells (sheets s' ws) (row_idx, col_index)) = Font (ascii ''FF0000'') True"
    "cvalue (cells (sheets s' ws) (row_idx, col_index)) = PStr v"
    using assms(1)
    by (simp_all add: s' s1_def fail_cell_def assign_def sleep_def update_cell_def Let_def
        highlight_fill_def highlight_font_def)
  ultimately show ?thesis using r by (simp add: s1_def)
qed

lemma demo_rate_limited:
  "snd (baidu_translate (\<lambda>s. s) (\<lambda>_. ErrorCode (ascii ''54003'')) 0 [25253, 21578] [105] [107])
     = Inr (Some ERROR_54003)"
  by (simp add: baidu_translate_def randint_def str_32768 surrogate_def)

lemma demo_cell_D2:
  "cvalue (cells (sheets demo_state [83]) (2, 4)) = PStr [25253, 21578]"
  "strip [25253, 21578] = [25253, 21578]"
  "\<not> is_already_translated (\<lambda>c. latin c \<or> cjk c) (PStr [25253, 21578])"
  by (simp_all add: demo_state_def demo_workbook_def demo_sheet_def start_state_def
      strip_def lstrip_def rstrip_def isspace_def is_already_translated_def newline_def)

lemma demo_state_facts:
  "log demo_state = []" "calls demo_state = 0" "app_id (task demo_state) = [105]"
  "app_key (task demo_state) = [107]" "error_cells (task demo_state) = 0"
  by (simp_all add: demo_state_def start_state_def demo_task_def TranslationTask_def)

theorem rate_limited_twice_witness:
  "fst (process_cell (demo_env (\<lambda>_. ErrorCode (ascii ''54003''))) [83] [68] 4 2 demo_state) = Normal
   \<and> error_cells (task (snd (process_cell (demo_env (\<lambda>_. ErrorCode (ascii ''54003''))) [83] [68] 4 2 demo_state))) = 1
   \<and> cfill (cells (sheets (snd (process_cell (demo_env (\<lambda>_. ErrorCode (ascii ''54003''))) [83] [68] 4 2 demo_state)) [83]) (2, 4))
       = PatternFill (ascii ''FFFF00'') (ascii ''FFFF00'') (ascii ''solid'')
   \<and> cfont (cells (sheets (snd (process_cell (demo_env (\<lambda>_. ErrorCode (ascii ''54003''))) [83] [68] 4 2 demo_state)) [83]) (2, 4))
       = Font (ascii ''FF0000'') True
   \<and> sleeps (log (snd (process_cell (demo_env (\<lambda>_. ErrorCode (ascii ''54003''))) [83] [68] 4 2 demo_state))) = [100]"
proof -
  have ne: "strip [25253, 21578] \<noteq> []" by (simp add: demo_cell_D2(2))
  show ?thesis
    using rate_limited_twice [of demo_state "[83]" 2 4 "[25253, 21578]"
        "demo_env (\<lambda>_. ErrorCode (ascii ''54003''))" "[68]", OF demo_cell_D2(1) ne _ _ _
        surjective_pairing]
    by (simp add: demo_cell_D2 demo_env_def demo_rate_limited demo_state_facts)
qed







section \<open>The frame of the worksheet processor\<close>

lemma only_changed_refl [simp]: "only_changed T W H s s"
  by (simp add: only_changed_def)

lemma only_changed_trans:
  "only_changed T W H s s' \<Longrightarrow> only_changed T W H s' s'' \<Longrightarrow> only_changed T W H s s''"
  by (simp add: only_changed_def)

lemma only_changed_mono:
  "only_changed T W H s s' \<Longrightarrow> T \<subseteq> T' \<Longrightarrow> W \<subseteq> W' \<Longrightarrow> H \<subseteq> H' \<Longrightarrow> only_changed T' W' H' s s'"
  unfolding only_changed_def by (meson subsetD)

lemma only_changed_sheets: "sheets s' = sheets s \<Longrightarrow> only_changed T W H s s'"
  by (simp add: only_changed_def)

lemma assign_sheets [simp]: "sheets (assign fld f s) = sheets s"
  by (simp add: assign_def)

lemma sleep_sheets [simp]: "sheets (sleep d s) = sheets s"
  by (simp add: sleep_def)

lemma update_cell_changed: "only_changed {(ws, rc)} {} {} s (update_cell ws rc f s)"
  by (simp add: only_changed_def update_cell_def)

lemma update_cell_changed': "(ws, rc) \<in> T \<Longrightarrow> only_changed T W H s (update_cell ws rc f s)"
  by (rule only_changed_mono [OF update_cell_changed]) auto

lemma change_after:
  "sheets s1 = sheets s0 \<Longrightarrow> only_changed T W H s1 s' \<Longrightarrow> only_changed T W H s0 s'"
  by (simp add: only_changed_def)

lemma skip_cell_changed: "only_changed {(ws, rc)} {} {} s (snd (skip_cell e ws rc cv s))"
  by (simp add: skip_cell_def set_value_cases Let_def only_changed_def update_cell_def
      split: pyval.split)

lemma fail_cell_changed: "only_changed {(ws, rc)} {} {} s (fail_cell e ws rc s)"
  by (simp add: fail_cell_def Let_def only_changed_def update_cell_def)

lemma finish_cell_changed:
  "only_changed {(ws, rc)} {} {} s (snd (finish_cell e ws rc cv et s))"
  by (cases et)
    (simp_all add: finish_cell_def write_translation_def set_value_cases Let_def
      only_changed_def update_cell_def del: take_append split: option.split)

lemma translate_cell_changed:
  "only_changed {(ws, rc)} {} {} s (snd (translate_cell e ws rc cv s))"
proof -
  define s2 where "s2 = snd (call_translate e cv s)"
  define s4 where "s4 = sleep 100 (assign F_message (\<lambda>t. t\<lparr>message := MsgRateLimitWait\<rparr>) s2)"
  define s5 where "s5 = snd (call_translate e cv s4)"
  have sh: "sheets s2 = sheets s" "sheets s5 = sheets s" by (simp_all add: s2_def s4_def s5_def)
  note u = translate_cell_unfold [OF refl s2_def [symmetric] s4_def refl s5_def [symmetric],
      of ws rc]
  have "only_changed {(ws, rc)} {} {} s s2" "only_changed {(ws, rc)} {} {} s s5"
    "only_changed {(ws, rc)} {} {} s (fail_cell e ws rc s5)"
    "only_changed {(ws, rc)} {} {} s (snd (finish_cell e ws rc cv et s2))"
    "only_changed {(ws, rc)} {} {} s (snd (finish_cell e ws rc cv et s5))" for et
    using sh
    by (auto intro: only_changed_sheets change_after [OF _ fail_cell_changed]
        change_after [OF _ finish_cell_changed])
  then show ?thesis by (simp add: u split: sum.split)
qed

lemma process_cell_changed:
  "only_changed {(ws, (row_idx, col_index))} {} {} s
     (snd (process_cell e ws col_letter col_index row_idx s))"
  unfolding process_cell_def
  by (auto simp: Let_def split: pyval.split
      intro!: change_after [OF _ skip_cell_changed] change_after [OF _ translate_cell_changed])

text \<open>How the two loops step.\<close>

lemma rows_loop_step:
  "snd (rows_loop e ws col_letter col_index (row_idx # rows) s) = s
   \<or> snd (rows_loop e ws col_letter col_index (row_idx # rows) s)
       = snd (process_cell e ws col_letter col_index row_idx s)
   \<or> snd (rows_loop e ws col_letter col_index (row_idx # rows) s)
       = snd (rows_loop e ws col_letter col_index rows
                (snd (process_cell e ws col_letter col_index row_idx s)))"
  by (simp add: case_prod_beta)

lemma columns_loop_step:
  assumes "column_index_from_string (upper e) col_letter = Some col_index"
    and "s1 = s\<lparr>columns_to_adjust := dict_set col_index 0 (columns_to_adjust s)\<rparr>"
    and "s2 = snd (rows_loop e ws col_letter col_index rows s1)"
  shows "snd (columns_loop e ws (col_letter # cols) rows s) = s2
       \<or> snd (columns_loop e ws (col_letter # cols) rows s) = snd (columns_loop e ws cols rows s2)"
  by (simp add: assms case_prod_beta Let_def)

lemma rows_loop_changed:
  "only_changed {(w, (r, c)). w = ws \<and> c = col_index \<and> r \<in> set rows} {} {} s
     (snd (rows_loop e ws col_letter col_index rows s))"
proof (induction rows arbitrary: s)
  case Nil
  show ?case by simp
next
  case (Cons row_idx rows)
  let ?T = "{(w, (r, c)). w = ws \<and> c = col_index \<and> r \<in> set (row_idx # rows)}"
  define s1 where "s1 = snd (process_cell e ws col_letter col_index row_idx s)"
  have 1: "only_changed ?T {} {} s s1"
    unfolding s1_def by (rule only_changed_mono [OF process_cell_changed]) auto
  have 2: "only_changed ?T {} {} s1 (snd (rows_loop e ws col_letter col_index rows s1))"
    by (rule only_changed_mono [OF Cons.IH]) auto
  show ?case
    using rows_loop_step [of e ws col_letter col_index row_idx rows s] 1
      only_changed_trans [OF 1 2]
    unfolding s1_def [symmetric] by auto
qed

lemma target_columns_Cons:
  "target_columns e (col_letter # cols) =
     (case column_index_from_string (upper e) col_letter of
        None \<Rightarrow> target_columns e cols | Some c \<Rightarrow> insert c (target_columns e cols))"
  by (simp add: target_columns_def List.map_filter_simps split: option.split)

lemma columns_loop_changed:
  "only_changed {(w, (r, c)). w = ws \<and> c \<in> target_columns e cols \<and> r \<in> set rows} {} {} s
     (snd (columns_loop e ws cols rows s))"
proof (induction cols arbitrary: s)
  case Nil
  show ?case by simp
next
  case (Cons col_letter cols)
  let ?T = "{(w, (r, c)). w = ws \<and> c \<in> target_columns e (col_letter # cols) \<and> r \<in> set rows}"
  show ?case
  proof (cases "column_index_from_string (upper e) col_letter")
    case None
    then show ?thesis using Cons.IH [of s] by (simp add: target_columns_Cons)
  next
    case (Some col_index)
    define s1 where "s1 = s\<lparr>columns_to_adjust := dict_set col_index 0 (columns_to_adjust s)\<rparr>"
    define s2 where "s2 = snd (rows_loop e ws col_letter col_index rows s1)"
    have 0: "only_changed ?T {} {} s s1" by (simp add: s1_def only_changed_def)
    have 1: "only_changed ?T {} {} s1 s2"
      unfolding s2_def
      by (rule only_changed_mono [OF rows_loop_changed]) (auto simp: target_columns_Cons Some)
    have 2: "only_changed ?T {} {} s2 (snd (columns_loop e ws cols rows s2))"
      by (rule only_changed_mono [OF Cons.IH]) (auto simp: target_columns_Cons Some)
    have "snd (columns_loop e ws (col_letter # cols) rows s) = s2
        \<or> snd (columns_loop e ws (col_letter # cols) rows s) = snd (columns_loop e ws cols rows s2)"
      by (rule columns_loop_step [OF Some s1_def s2_def])
    then show ?thesis
      using only_changed_trans [OF 0 1] only_changed_trans [OF only_changed_trans [OF 0 1] 2]
      by auto
  qed
qed

lemma dict_set_keys: "fst ` set (dict_set k v ps) = insert k (fst ` set ps)"
  by (induction ps) auto

lemma update_progress_adjust [simp]:
  "columns_to_adjust (update_progress e s) = columns_to_adjust s"
  by (simp add: update_progress_def assign_def Let_def)

lemma skip_cell_adjust [simp]:
  "columns_to_adjust (snd (skip_cell e ws rc cv s)) = columns_to_adjust s"
  by (simp add: skip_cell_def set_value_cases assign_def update_cell_def Let_def
      split: pyval.split)

lemma fail_cell_adjust [simp]: "columns_to_adjust (fail_cell e ws rc s) = columns_to_adjust s"
  by (simp add: fail_cell_def assign_def update_cell_def Let_def)

lemma finish_cell_adjust:
  "fst ` set (columns_to_adjust (snd (finish_cell e ws rc cv et s)))
     \<subseteq> insert (snd rc) (fst ` set (columns_to_adjust s))"
  by (cases et)
    (auto simp add: finish_cell_def write_translation_def set_value_cases sleep_def assign_def
      update_cell_def Let_def dict_set_keys simp del: take_append split: option.split)

lemma translate_cell_adjust:
  "fst ` set (columns_to_adjust (snd (translate_cell e ws rc cv s)))
     \<subseteq> insert (snd rc) (fst ` set (columns_to_adjust s))"
proof -
  define s2 where "s2 = snd (call_translate e cv s)"
  define s4 where "s4 = sleep 100 (assign F_message (\<lambda>t. t\<lparr>message := MsgRateLimitWait\<rparr>) s2)"
  define s5 where "s5 = snd (call_translate e cv s4)"
  have sh: "columns_to_adjust s2 = columns_to_adjust s" "columns_to_adjust s5 = columns_to_adjust s"
    by (simp_all add: s2_def s4_def s5_def sleep_def assign_def)
  note u = translate_cell_unfold [OF refl s2_def [symmetric] s4_def refl s5_def [symmetric],
      of ws rc]
  have "fst ` set (columns_to_adjust (snd (finish_cell e ws rc cv et s2)))
          \<subseteq> insert (snd rc) (fst ` set (columns_to_adjust s))"
    "fst ` set (columns_to_adjust (snd (finish_cell e ws rc cv et s5)))
          \<subseteq> insert (snd rc) (fst ` set (columns_to_adjust s))" for et
    using finish_cell_adjust [of e ws rc cv et s2] finish_cell_adjust [of e ws rc cv et s5] sh
    by simp_all
  then show ?thesis using sh by (auto simp: u split: sum.split)
qed

lemma process_cell_adjust:
  "fst ` set (columns_to_adjust (snd (process_cell e ws col_letter col_index row_idx s)))
     \<subseteq> insert col_index (fst ` set (columns_to_adjust s))"
proof -
  define s1 where "s1 = assign F_current_cell (\<lambda>t. t\<lparr>current_cell := col_letter @ str row_idx\<rparr>) s"
  have k: "columns_to_adjust s1 = columns_to_adjust s" by (simp add: s1_def assign_def)
  have "fst ` set (columns_to_adjust (snd (translate_cell e ws (row_idx, col_index) cv s1)))
          \<subseteq> insert col_index (fst ` set (columns_to_adjust s))" for cv
    using translate_cell_adjust [of e ws "(row_idx, col_index)" cv s1] k by simp
  then show ?thesis
    unfolding process_cell_def using k
    by (auto simp: Let_def s1_def [symmetric] split: pyval.split)
qed

lemma rows_loop_adjust:
  "fst ` set (columns_to_adjust (snd (rows_loop e ws col_letter col_index rows s)))
     \<subseteq> insert col_index (fst ` set (columns_to_adjust s))"
proof (induction rows arbitrary: s)
  case Nil
  show ?case by auto
next
  case (Cons row_idx rows)
  define r where "r = snd (rows_loop e ws col_letter col_index (row_idx # rows) s)"
  define s1 where "s1 = snd (process_cell e ws col_letter col_index row_idx s)"
  have d: "r = s \<or> r = s1 \<or> r = snd (rows_loop e ws col_letter col_index rows s1)"
    unfolding r_def s1_def by (rule rows_loop_step)
  have 1: "fst ` set (columns_to_adjust s1) \<subseteq> insert col_index (fst ` set (columns_to_adjust s))"
    unfolding s1_def by (rule process_cell_adjust)
  have "fst ` set (columns_to_adjust r) \<subseteq> insert col_index (fst ` set (columns_to_adjust s))"
    using d 1 Cons.IH [of s1] by blast
  then show ?case unfolding r_def .
qed

lemma columns_loop_adjust:
  "fst ` set (columns_to_adjust (snd (columns_loop e ws cols rows s)))
     \<subseteq> fst ` set (columns_to_adjust s) \<union> target_columns e cols"
proof (induction cols arbitrary: s)
  case Nil
  show ?case by auto
next
  case (Cons col_letter cols)
  show ?case
  proof (cases "column_index_from_string (upper e) col_letter")
    case None
    then show ?thesis using Cons.IH [of s] by (simp add: target_columns_Cons)
  next
    case (Some col_index)
    define s1 where "s1 = s\<lparr>columns_to_adjust := dict_set col_index 0 (columns_to_adjust s)\<rparr>"
    define s2 where "s2 = snd (rows_loop e ws col_letter col_index rows s1)"
    have 1: "fst ` set (columns_to_adjust s2) \<subseteq> insert col_index (fst ` set (columns_to_adjust s))"
      using rows_loop_adjust [of e ws col_letter col_index rows s1]
      by (auto simp: s1_def s2_def dict_set_keys)
    define r where "r = snd (columns_loop e ws (col_letter # cols) rows s)"
    have d: "r = s2 \<or> r = snd (columns_loop e ws cols rows s2)"
      unfolding r_def by (rule columns_loop_step [OF Some s1_def s2_def])
    have tc: "target_columns e (col_letter # cols) = insert col_index (target_columns e cols)"
      by (simp add: target_columns_Cons Some)
    have "fst ` set (columns_to_adjust r)
            \<subseteq> fst ` set (columns_to_adjust s) \<union> insert col_index (target_columns e cols)"
      using d 1 Cons.IH [of s2] by blast
    then show ?thesis unfolding r_def tc .
  qed
qed

lemma adjust_widths_changed:
  "only_changed {} {(w, c). w = ws \<and> c \<in> fst ` set items} {} s (adjust_widths ws items s)"
proof (induction items arbitrary: s)
  case Nil
  show ?case by simp
next
  case (Cons item items)
  obtain col_index max_length where item: "item = (col_index, max_length)" by (cases item)
  let ?W = "{(w, c). w = ws \<and> c \<in> fst ` set (item # items)}"
  let ?s1 = "set_column_width ws col_index (Width_of_max_length max_length) s"
  have 1: "only_changed {} ?W {} s ?s1"
    by (auto simp: only_changed_def set_column_width_def item)
  have 2: "only_changed {} ?W {} ?s1 (adjust_widths ws items ?s1)"
    by (rule only_changed_mono [OF Cons.IH]) auto
  show ?case using only_changed_trans [OF 1 2] by (simp add: item)
qed

lemma adjust_heights_changed:
  "only_changed {} {} {(w, r). w = ws \<and> r \<in> set rows} s (adjust_heights e ws cols rows s)"
proof (induction rows arbitrary: s)
  case Nil
  show ?case by simp
next
  case (Cons row_idx rows)
  let ?H = "{(w, r). w = ws \<and> r \<in> set (row_idx # rows)}"
  let ?s1 = "set_row_height ws row_idx
               (min (15 + (int (row_max_lines e (sheets s ws) row_idx cols 1) - 1) * 10) 100) s"
  have 1: "only_changed {} {} ?H s ?s1"
    by (auto simp: only_changed_def set_row_height_def)
  have 2: "only_changed {} {} ?H ?s1 (adjust_heights e ws cols rows ?s1)"
    by (rule only_changed_mono [OF Cons.IH]) auto
  show ?case using only_changed_trans [OF 1 2] by (simp add: Let_def)
qed

lemma translate_worksheet_changed:
  "only_changed
     {(w, (r, c)). w = ws \<and> c \<in> target_columns e cols
        \<and> clamp_start srow \<le> r \<and> r \<le> clamp_end (sheets s ws) erow}
     {(w, c). w = ws \<and> c \<in> target_columns e cols}
     {(w, r). w = ws \<and> clamp_start srow \<le> r \<and> r \<le> clamp_end (sheets s ws) erow}
     s (snd (translate_worksheet_with_progress e ws cols srow erow s))"
  (is "only_changed ?T ?W ?H s _")
proof (cases "clamp_start srow > clamp_end (sheets s ws) erow")
  case True
  then show ?thesis
    by (simp add: translate_worksheet_with_progress_def Let_def only_changed_sheets)
next
  case False
  define rows where "rows = [clamp_start srow..clamp_end (sheets s ws) erow]"
  define s0 where "s0 = s\<lparr>columns_to_adjust := []\<rparr>"
  define s1 where "s1 = snd (columns_loop e ws cols rows s0)"
  define s2 where "s2 = adjust_widths ws (columns_to_adjust s1) s1"
  define s3 where "s3 = adjust_heights e ws cols rows s2"
  have 0: "only_changed ?T ?W ?H s s0" by (simp add: s0_def only_changed_def)
  have 1: "only_changed ?T ?W ?H s0 s1"
    unfolding s1_def by (rule only_changed_mono [OF columns_loop_changed]) (auto simp: rows_def)
  have k: "fst ` set (columns_to_adjust s1) \<subseteq> target_columns e cols"
    using columns_loop_adjust [of e ws cols rows s0] by (simp add: s1_def s0_def)
  have 2: "only_changed ?T ?W ?H s1 s2"
    unfolding s2_def using k by (intro only_changed_mono [OF adjust_widths_changed]) auto
  have 3: "only_changed ?T ?W ?H s2 s3"
    unfolding s3_def by (rule only_changed_mono [OF adjust_heights_changed]) (auto simp: rows_def)
  have "snd (translate_worksheet_with_progress e ws cols srow erow s) = s1
      \<or> snd (translate_worksheet_with_progress e ws cols srow erow s) = s3"
    using False
    by (simp add: translate_worksheet_with_progress_def Let_def rows_def s0_def s1_def s2_def
        s3_def case_prod_beta)
  then show ?thesis
    using only_changed_trans [OF 0 1]
      only_changed_trans [OF only_changed_trans [OF only_changed_trans [OF 0 1] 2] 3]
    by auto
qed

text \<open>
  C10. A run of \<open>translate_worksheet_with_progress\<close> leaves every cell (value and
  styles) as it was, except in the worksheet it was given, at the columns of the valid
  names among \<open>columns\<close> and the rows of the clamped range; it sets column widths only
  for those columns and row heights only for those rows, of that worksheet, and it moves
  no last row.
\<close>

theorem worksheet_frame:
  assumes "s' = snd (translate_worksheet_with_progress e ws cols srow erow s)"
  shows "(\<forall>w r c. \<not> (w = ws \<and> c \<in> target_columns e cols
              \<and> clamp_start srow \<le> r \<and> r \<le> clamp_end (sheets s ws) erow)
            \<longrightarrow> cells (sheets s' w) (r, c) = cells (sheets s w) (r, c))
       \<and> (\<forall>w c. \<not> (w = ws \<and> c \<in> target_columns e cols)
            \<longrightarrow> column_width (sheets s' w) c = column_width (sheets s w) c)
       \<and> (\<forall>w r. \<not> (w = ws \<and> clamp_start srow \<le> r \<and> r \<le> clamp_end (sheets s ws) erow)
            \<longrightarrow> row_height (sheets s' w) r = row_height (sheets s w) r)
       \<and> (\<forall>w. max_row (sheets s' w) = max_row (sheets s w))"
  using translate_worksheet_changed [of ws e cols srow s erow]
  unfolding assms only_changed_def by auto

lemma demo_target_columns: "target_columns (demo_env replies) [[68]] = {4}"
  by (simp add: target_columns_def demo_env_def column_index_from_string_def
      List.map_filter_simps)

theorem worksheet_frame_witness:
  "cells (sheets (snd (translate_worksheet_with_progress (demo_env (\<lambda>_. TransResult [[79, 75]]))
       [83] [[68]] 2 (Some 3) demo_state)) [83]) (3, 5) = cells (sheets demo_state [83]) (3, 5)
   \<and> cells (sheets (snd (translate_worksheet_with_progress (demo_env (\<lambda>_. TransResult [[79, 75]]))
       [83] [[68]] 2 (Some 3) demo_state)) [83]) (1, 4) = cells (sheets demo_state [83]) (1, 4)
   \<and> column_width (sheets (snd (translate_worksheet_with_progress
       (demo_env (\<lambda>_. TransResult [[79, 75]])) [83] [[68]] 2 (Some 3) demo_state)) [83]) 5
       = column_width (sheets demo_state [83]) 5
   \<and> row_height (sheets (snd (translate_worksheet_with_progress
       (demo_env (\<lambda>_. TransResult [[79, 75]])) [83] [[68]] 2 (Some 3) demo_state)) [83]) 1
       = row_height (sheets demo_state [83]) 1"
  using worksheet_frame [of _ "demo_env (\<lambda>_. TransResult [[79, 75]])" "[83]" "[[68]]" 2
      "Some 3" demo_state, OF refl]
  by (simp add: demo_target_columns clamp_start_def)

section \<open>Progress along a run\<close>

lemma progress_ok_assign:
  assumes "progress_ok e s" "percent_monotone e" "fld \<noteq> F_progress"
    and "progress (f (task s)) = progress (task s)"
    and "total_cells (f (task s)) = total_cells (task s)"
    and "processed (task s) \<le> processed (f (task s))"
  shows "progress_ok e (assign fld f s)"
proof -
  have "0 < total_cells (task s) \<Longrightarrow>
      percent e (processed (task s)) (total_cells (task s))
        \<le> percent e (processed (f (task s))) (total_cells (task s))"
    using assms(2,6) by (simp add: percent_monotone_def)
  then show ?thesis
    using assms(1,3,4,5) by (fastforce simp: progress_ok_def assign_def)
qed

lemma progress_ok_same:
  "progress_ok e s \<Longrightarrow> task s' = task s \<Longrightarrow>
   assigned F_progress (log s') = assigned F_progress (log s) \<Longrightarrow> progress_ok e s'"
  by (simp add: progress_ok_def)

lemma progress_ok_update_progress:
  assumes "progress_ok e s" "percent_monotone e"
  shows "progress_ok e (update_progress e s)"
proof (cases "0 < total_cells (task s)")
  case False
  then show ?thesis using assms by (simp add: update_progress_def)
next
  case True
  define v where "v = min 100 (percent e (processed (task s)) (total_cells (task s)))"
  define s1 where "s1 = assign F_progress
     (\<lambda>t. t\<lparr>progress := min 100 (percent e
        (translated_cells (task s) + error_cells (task s) + skipped_cells (task s))
        (total_cells t))\<rparr>) s"
  define fm :: "task \<Rightarrow> task" where "fm = (\<lambda>t. t\<lparr>message := MsgCellProgress (current_sheet t) (current_cell t)
                                 (translated_cells t) (skipped_cells t) (error_cells t)\<rparr>)"
  have ge: "progress (task s) \<le> v" using assms(1) True by (simp add: progress_ok_def v_def)
  have t1: "task s1 = (task s)\<lparr>progress := v\<rparr>"
    by (simp add: s1_def assign_def v_def processed_def)
  have l1: "assigned F_progress (log s1) = assigned F_progress (log s) @ [(task s)\<lparr>progress := v\<rparr>]"
    by (simp add: s1_def assign_def v_def processed_def)
  have "list_all (\<lambda>t. progress t \<le> v) (assigned F_progress (log s))"
    using assms(1) ge by (auto simp: progress_ok_def list_all_iff)
  moreover have "sorted (map progress (assigned F_progress (log s)) @ [v])"
    using assms(1) ge by (auto simp: progress_ok_def sorted_append list_all_iff)
  ultimately have 1: "progress_ok e s1"
    using True by (simp add: progress_ok_def t1 l1 v_def processed_def)
  have m: "progress_ok e (assign F_message fm s1)"
    by (rule progress_ok_assign [OF 1 assms(2)]) (simp_all add: processed_def fm_def)
  have "update_progress e s = s1 \<or> update_progress e s = assign F_message fm s1"
    using True by (simp add: update_progress_def Let_def s1_def fm_def)
  then show ?thesis using 1 m by auto
qed

lemma progress_ok_set_value:
  "progress_ok e s \<Longrightarrow> progress_ok e (snd (set_value ws rc v s))"
  by (simp add: set_value_cases progress_ok_def update_cell_def)

lemma progress_ok_update_cell:
  "progress_ok e s \<Longrightarrow> progress_ok e (update_cell ws rc f s)"
  by (simp add: progress_ok_def update_cell_def)

lemma progress_ok_skip_cell:
  assumes "progress_ok e s" "percent_monotone e"
  shows "progress_ok e (snd (skip_cell e ws rc cv s))"
proof -
  define adjusted_value where "adjusted_value = check_and_adjust_translation_order (PStr cv)"
  define x where "x = (if adjusted_value \<noteq> PStr cv
                       then (case adjusted_value of
                               PStr a \<Rightarrow> set_value ws rc a s
                             | _ \<Rightarrow> (Normal, update_cell ws rc
                                                  (\<lambda>c. c\<lparr>cvalue := adjusted_value\<rparr>) s))
                       else (Normal, s))"
  have 1: "progress_ok e (snd x)"
    using assms(1) progress_ok_set_value [OF assms(1)] progress_ok_update_cell [OF assms(1)]
    by (simp add: x_def split: pyval.split)
  have 2: "progress_ok e (update_progress e
             (assign F_skipped_cells (\<lambda>t. t\<lparr>skipped_cells := skipped_cells t + 1\<rparr>) (snd x)))"
    apply (rule progress_ok_update_progress [OF _ assms(2)])
    apply (rule progress_ok_assign [OF 1 assms(2)])
    apply (simp_all add: processed_def)
    done
  have "snd (skip_cell e ws rc cv s) = snd x
      \<or> snd (skip_cell e ws rc cv s) = update_progress e
             (assign F_skipped_cells (\<lambda>t. t\<lparr>skipped_cells := skipped_cells t + 1\<rparr>) (snd x))"
    unfolding x_def adjusted_value_def by (simp add: skip_cell_def Let_def case_prod_beta)
  then show ?thesis using 1 2 by auto
qed

lemma progress_ok_fail_cell:
  assumes "progress_ok e s" "percent_monotone e"
  shows "progress_ok e (fail_cell e ws rc s)"
  unfolding fail_cell_def Let_def
  apply (rule progress_ok_update_progress [OF _ assms(2)])
  apply (rule progress_ok_same [where s = "assign F_error_cells (\<lambda>t. t\<lparr>error_cells := error_cells t + 1\<rparr>) s"])
  apply (rule progress_ok_assign [OF assms])
  apply (simp_all add: update_cell_def processed_def)
  done

lemma progress_ok_write_translation:
  assumes "progress_ok e s" "percent_monotone e"
  shows "progress_ok e (snd (write_translation ws rc cv et s))"
proof (cases et)
  case None
  then show ?thesis using assms by (simp add: write_translation_def)
next
  case (Some english)
  define s12 where "s12 = update_cell ws rc (\<lambda>c. c\<lparr>calignment := wrap_alignment\<rparr>)
     (update_cell ws rc (\<lambda>c. c\<lparr>cvalue := PStr (take 32767 (english @ [newline] @ cv))\<rparr>) s)"
  define s13 where "s13 = assign F_translated_cells
     (\<lambda>t. t\<lparr>translated_cells := translated_cells t + 1\<rparr>) s12"
  have 12: "progress_ok e s12"
    by (rule progress_ok_same [OF assms(1)]) (simp_all add: s12_def update_cell_def)
  have 13: "progress_ok e s13"
    unfolding s13_def by (rule progress_ok_assign [OF 12 assms(2)]) (simp_all add: processed_def)
  have 14: "\<And>d. progress_ok e (s13\<lparr>columns_to_adjust := d\<rparr>)"
    by (rule progress_ok_same [OF 13]) simp_all
  show ?thesis
    using assms(1) 13 14
    by (simp add: write_translation_def set_value_cases Some Let_def s12_def s13_def
        del: take_append split: option.split)
qed

lemma progress_ok_finish_cell:
  assumes "progress_ok e s" "percent_monotone e"
  shows "progress_ok e (snd (finish_cell e ws rc cv et s))"
proof -
  define s1 where "s1 = snd (write_translation ws rc cv et s)"
  have 1: "progress_ok e s1"
    unfolding s1_def by (rule progress_ok_write_translation [OF assms])
  have 2: "progress_ok e (sleep 15 (update_progress e s1))"
    by (rule progress_ok_same [OF progress_ok_update_progress [OF 1 assms(2)]])
      (simp_all add: sleep_def)
  have "snd (finish_cell e ws rc cv et s) = s1
      \<or> snd (finish_cell e ws rc cv et s) = sleep 15 (update_progress e s1)"
    by (simp add: finish_cell_def case_prod_beta s1_def)
  then show ?thesis using 1 2 by auto
qed

lemma progress_ok_call_translate:
  "progress_ok e s \<Longrightarrow> progress_ok e (snd (call_translate e q s))"
  by (simp add: progress_ok_def call_translate_def case_prod_beta split: option.split)

lemma progress_ok_translate_cell:
  assumes "progress_ok e s" "percent_monotone e"
  shows "progress_ok e (snd (translate_cell e ws rc cv s))"
proof -
  define s2 where "s2 = snd (call_translate e cv s)"
  define s4 where "s4 = sleep 100 (assign F_message (\<lambda>t. t\<lparr>message := MsgRateLimitWait\<rparr>) s2)"
  define s5 where "s5 = snd (call_translate e cv s4)"
  note u = translate_cell_unfold [OF refl s2_def [symmetric] s4_def refl s5_def [symmetric],
      of ws rc]
  have 2: "progress_ok e s2" unfolding s2_def by (rule progress_ok_call_translate [OF assms(1)])
  have 3: "progress_ok e (assign F_message (\<lambda>t. t\<lparr>message := MsgRateLimitWait\<rparr>) s2)"
    by (rule progress_ok_assign [OF 2 assms(2)]) (simp_all add: processed_def)
  have 4: "progress_ok e s4"
    unfolding s4_def by (rule progress_ok_same [OF 3]) (simp_all add: sleep_def)
  have 5: "progress_ok e s5" unfolding s5_def by (rule progress_ok_call_translate [OF 4])
  show ?thesis
    using 2 5 progress_ok_fail_cell [OF 5 assms(2)] progress_ok_finish_cell [OF 2 assms(2)]
      progress_ok_finish_cell [OF 5 assms(2)]
    by (simp add: u split: sum.split)
qed

lemma progress_ok_process_cell:
  assumes "progress_ok e s" "percent_monotone e"
  shows "progress_ok e (snd (process_cell e ws col_letter col_index row_idx s))"
proof -
  define s1 where "s1 = assign F_current_cell (\<lambda>t. t\<lparr>current_cell := col_letter @ str row_idx\<rparr>) s"
  have 1: "progress_ok e s1"
    unfolding s1_def by (rule progress_ok_assign [OF assms]) (simp_all add: processed_def)
  show ?thesis
    using assms(1) progress_ok_skip_cell [OF 1 assms(2)] progress_ok_translate_cell [OF 1 assms(2)]
    by (simp add: process_cell_def Let_def s1_def [symmetric] split: pyval.split)
qed

lemma progress_ok_rows_loop:
  assumes "percent_monotone e"
  shows "progress_ok e s \<Longrightarrow> progress_ok e (snd (rows_loop e ws col_letter col_index rows s))"
proof (induction rows arbitrary: s)
  case Nil
  then show ?case by simp
next
  case (Cons row_idx rows)
  define r where "r = snd (rows_loop e ws col_letter col_index (row_idx # rows) s)"
  define s1 where "s1 = snd (process_cell e ws col_letter col_index row_idx s)"
  have d: "r = s \<or> r = s1 \<or> r = snd (rows_loop e ws col_letter col_index rows s1)"
    unfolding r_def s1_def by (rule rows_loop_step)
  have 1: "progress_ok e s1"
    unfolding s1_def by (rule progress_ok_process_cell [OF Cons.prems assms])
  have "progress_ok e r" using d Cons.prems 1 Cons.IH [OF 1] by auto
  then show ?case unfolding r_def .
qed

lemma progress_ok_columns_loop:
  assumes "percent_monotone e"
  shows "progress_ok e s \<Longrightarrow> progress_ok e (snd (columns_loop e ws cols rows s))"
proof (induction cols arbitrary: s)
  case Nil
  then show ?case by simp
next
  case (Cons col_letter cols)
  show ?case
  proof (cases "column_index_from_string (upper e) col_letter")
    case None
    then show ?thesis using Cons by simp
  next
    case (Some col_index)
    define s1 where "s1 = s\<lparr>columns_to_adjust := dict_set col_index 0 (columns_to_adjust s)\<rparr>"
    define s2 where "s2 = snd (rows_loop e ws col_letter col_index rows s1)"
    define r where "r = snd (columns_loop e ws (col_letter # cols) rows s)"
    have d: "r = s2 \<or> r = snd (columns_loop e ws cols rows s2)"
      unfolding r_def by (rule columns_loop_step [OF Some s1_def s2_def])
    have "progress_ok e s1"
      unfolding s1_def by (rule progress_ok_same [OF Cons.prems]) simp_all
    then have 2: "progress_ok e s2"
      unfolding s2_def by (rule progress_ok_rows_loop [OF assms])
    have "progress_ok e r" using d 2 Cons.IH [OF 2] by auto
    then show ?thesis unfolding r_def .
  qed
qed

lemma adjust_widths_task [simp]:
  "task (adjust_widths ws items s) = task s" "log (adjust_widths ws items s) = log s"
  "calls (adjust_widths ws items s) = calls s"
  by (induction ws items s rule: adjust_widths.induct) (simp_all add: set_column_width_def)

lemma adjust_heights_task [simp]:
  "task (adjust_heights e ws cols rows s) = task s" "log (adjust_heights e ws cols rows s) = log s"
  "calls (adjust_heights e ws cols rows s) = calls s"
  by (induction e ws cols rows s rule: adjust_heights.induct)
    (simp_all add: set_row_height_def Let_def)

lemma progress_ok_translate_worksheet:
  assumes "progress_ok e s" "percent_monotone e"
  shows "progress_ok e (snd (translate_worksheet_with_progress e ws cols srow erow s))"
proof -
  have 0: "progress_ok e (s\<lparr>columns_to_adjust := []\<rparr>)"
    by (rule progress_ok_same [OF assms(1)]) simp_all
  have 1: "progress_ok e (snd (columns_loop e ws cols rows (s\<lparr>columns_to_adjust := []\<rparr>)))" for rows
    by (rule progress_ok_columns_loop [OF assms(2) 0])
  have 2: "progress_ok e (adjust_heights e ws cols rows' (adjust_widths ws items
             (snd (columns_loop e ws cols rows (s\<lparr>columns_to_adjust := []\<rparr>)))))" for rows rows' items
    by (rule progress_ok_same [OF 1 [of rows]]) simp_all
  have 3: "progress_ok e (assign F_message (\<lambda>t. t\<lparr>message := m\<rparr>) s)" for m
    by (rule progress_ok_assign [OF assms]) (simp_all add: processed_def)
  show ?thesis
    using 1 2 3
    by (simp add: translate_worksheet_with_progress_def Let_def case_prod_beta)
qed

lemma progress_ok_sheets_loop:
  assumes "percent_monotone e"
  shows "progress_ok e s \<Longrightarrow> progress_ok e (snd (sheets_loop e names s))"
proof (induction names arbitrary: s)
  case Nil
  then show ?case by simp
next
  case (Cons sheet_name names)
  define s2 where "s2 = assign F_message (\<lambda>t. t\<lparr>message := MsgSheet sheet_name\<rparr>)
      (assign F_current_sheet (\<lambda>t. t\<lparr>current_sheet := sheet_name\<rparr>) s)"
  define s3 where "s3 = snd (translate_worksheet_with_progress e sheet_name
      (columns (task s2)) (start_row (task s2)) (end_row (task s2)) s2)"
  have "progress_ok e (assign F_current_sheet (\<lambda>t. t\<lparr>current_sheet := sheet_name\<rparr>) s)"
    by (rule progress_ok_assign [OF Cons.prems assms]) (simp_all add: processed_def)
  then have 2: "progress_ok e s2"
    unfolding s2_def by (rule progress_ok_assign [OF _ assms]) (simp_all add: processed_def)
  have 3: "progress_ok e s3"
    unfolding s3_def by (rule progress_ok_translate_worksheet [OF 2 assms])
  have 4: "progress_ok e (assign F_status (\<lambda>t. t\<lparr>status := Failed\<rparr>) s3)"
    by (rule progress_ok_assign [OF 3 assms]) (simp_all add: processed_def)
  show ?case
    using Cons.prems 3 4 Cons.IH [OF 3]
    by (simp add: Let_def case_prod_beta s2_def [symmetric] s3_def [symmetric]
        split: outcome.split)
qed

lemma progress_ok_trace:
  "progress_ok e s \<Longrightarrow>
   sorted (map progress (assigned F_progress (log s)))
   \<and> list_all (\<lambda>t. progress t \<le> 100) (assigned F_progress (log s))"
  by (auto simp: progress_ok_def list_all_iff)

lemma save_result_trace:
  assumes "progress_ok e s"
  shows "sorted (map progress (assigned F_progress (log (save_result e s))))
       \<and> list_all (\<lambda>t. progress t \<le> 100) (assigned F_progress (log (save_result e s)))"
proof -
  have "\<forall>t \<in> set (assigned F_progress (log s)). progress t \<le> 100"
    using assms by (auto simp: progress_ok_def list_all_iff)
  then show ?thesis
    using progress_ok_trace [OF assms]
    by (auto simp: save_result_def Let_def assign_def sorted_append list_all_iff)
qed

text \<open>The pre-scan changes no task field, no event, no cell: at most last rows.\<close>

lemma prescan_rows_kept:
  "task (snd (prescan_rows e ws col_index rows (cnt, s))) = task s
   \<and> log (snd (prescan_rows e ws col_index rows (cnt, s))) = log s
   \<and> calls (snd (prescan_rows e ws col_index rows (cnt, s))) = calls s
   \<and> (\<forall>w. cells (sheets (snd (prescan_rows e ws col_index rows (cnt, s))) w) = cells (sheets s w))"
  by (induction rows arbitrary: cnt s) (simp_all add: Let_def touch_row_def)

lemma prescan_columns_kept:
  "task (snd (prescan_columns e ws cols srow erow (cnt, s))) = task s
   \<and> log (snd (prescan_columns e ws cols srow erow (cnt, s))) = log s
   \<and> calls (snd (prescan_columns e ws cols srow erow (cnt, s))) = calls s
   \<and> (\<forall>w. cells (sheets (snd (prescan_columns e ws cols srow erow (cnt, s))) w) = cells (sheets s w))"
proof (induction cols arbitrary: cnt s)
  case Nil
  show ?case by simp
next
  case (Cons col_letter cols)
  show ?case
  proof (cases "column_index_from_string (upper e) col_letter")
    case None
    then show ?thesis using Cons.IH by simp
  next
    case (Some col_index)
    obtain cnt1 s1 where r: "prescan_rows e ws col_index
        [srow..(case erow of None \<Rightarrow> max_row (sheets s ws)
                 | Some n \<Rightarrow> if n = 0 then max_row (sheets s ws) else n)] (cnt, s) = (cnt1, s1)"
      by (cases "prescan_rows e ws col_index
        [srow..(case erow of None \<Rightarrow> max_row (sheets s ws)
                 | Some n \<Rightarrow> if n = 0 then max_row (sheets s ws) else n)] (cnt, s)")
    have k: "task s1 = task s \<and> log s1 = log s \<and> calls s1 = calls s
        \<and> (\<forall>w. cells (sheets s1 w) = cells (sheets s w))"
      using prescan_rows_kept [of e ws col_index _ cnt s] r by (metis snd_conv)
    show ?thesis using Cons.IH [of cnt1 s1] k by (simp add: Some Let_def r)
  qed
qed

lemma prescan_sheets_kept:
  "task (snd (prescan_sheets e names cols srow erow (cnt, s))) = task s
   \<and> log (snd (prescan_sheets e names cols srow erow (cnt, s))) = log s
   \<and> calls (snd (prescan_sheets e names cols srow erow (cnt, s))) = calls s
   \<and> (\<forall>w. cells (sheets (snd (prescan_sheets e names cols srow erow (cnt, s))) w) = cells (sheets s w))"
proof (induction names arbitrary: cnt s)
  case Nil
  show ?case by simp
next
  case (Cons sheet_name names)
  obtain cnt1 s1 where r: "prescan_columns e sheet_name cols srow erow (cnt, s) = (cnt1, s1)"
    by (cases "prescan_columns e sheet_name cols srow erow (cnt, s)")
  have k: "task s1 = task s \<and> log s1 = log s \<and> calls s1 = calls s
      \<and> (\<forall>w. cells (sheets s1 w) = cells (sheets s w))"
    using prescan_columns_kept [of e sheet_name cols srow erow cnt s] r by (metis snd_conv)
  show ?case using Cons.IH [of cnt1 s1] k by (simp add: r)
qed

lemma count_cells_progress_ok:
  assumes "percent_monotone e" "assigned F_progress (log s) = []"
  shows "progress_ok e (snd (count_cells e names s))"
proof -
  define s1 where "s1 = assign F_message (\<lambda>t. t\<lparr>message := MsgCounting\<rparr>) s"
  define r where "r = prescan_sheets e names (columns (task s1)) (start_row (task s1))
               (end_row (task s1)) ((0, 0), s1)"
  have l: "assigned F_progress (log (snd r)) = []"
    using prescan_sheets_kept [of e names _ _ _ "(0, 0)" s1] assms(2)
    by (simp add: r_def s1_def assign_def)
  have eq: "snd (count_cells e names s) =
      assign F_progress (\<lambda>t. t\<lparr>progress := 0\<rparr>)
        (assign F_skipped_cells (\<lambda>t. t\<lparr>skipped_cells := 0\<rparr>)
        (assign F_error_cells (\<lambda>t. t\<lparr>error_cells := 0\<rparr>)
        (assign F_translated_cells (\<lambda>t. t\<lparr>translated_cells := 0\<rparr>)
        (assign F_total_cells (\<lambda>t. t\<lparr>total_cells := fst (fst r) + snd (fst r)\<rparr>) (snd r)))))"
    by (simp add: count_cells_def Let_def case_prod_beta s1_def r_def)
  show ?thesis
    unfolding eq using assms(1) l
    by (simp add: progress_ok_def assign_def processed_def percent_monotone_def)
qed

lemma scan_and_translate_trace:
  assumes "percent_monotone e" "assigned F_progress (log s) = []"
  shows "sorted (map progress (assigned F_progress (log (snd (scan_and_translate e names s)))))
       \<and> list_all (\<lambda>t. progress t \<le> 100)
           (assigned F_progress (log (snd (scan_and_translate e names s))))"
proof -
  define c where "c = fst (count_cells e names s)"
  define s7 where "s7 = snd (count_cells e names s)"
  have 7: "progress_ok e s7"
    unfolding s7_def by (rule count_cells_progress_ok [OF assms])
  define s9 where "s9 = assign F_output_file (\<lambda>t. t\<lparr>output_file := output_path e (filename t)\<rparr>)
      (assign F_message (\<lambda>t. t\<lparr>message := MsgFound (fst c) (snd c)\<rparr>) s7)"
  have 9: "progress_ok e s9"
    unfolding s9_def
    by (intro progress_ok_assign [OF _ assms(1)] 7) (simp_all add: processed_def)
  have 10: "progress_ok e (snd (sheets_loop e names s9))"
    by (rule progress_ok_sheets_loop [OF assms(1) 9])
  have 0: "progress_ok e (assign F_end_time (\<lambda>t. t\<lparr>end_time := Some (clock_end e)\<rparr>)
      (assign F_status (\<lambda>t. t\<lparr>status := Completed\<rparr>)
      (assign F_message (\<lambda>t. t\<lparr>message := MsgNothingToDo\<rparr>) s7)))"
    by (intro progress_ok_assign [OF _ assms(1)] 7) (simp_all add: processed_def)
  have "snd (scan_and_translate e names s) =
          assign F_end_time (\<lambda>t. t\<lparr>end_time := Some (clock_end e)\<rparr>)
            (assign F_status (\<lambda>t. t\<lparr>status := Completed\<rparr>)
            (assign F_message (\<lambda>t. t\<lparr>message := MsgNothingToDo\<rparr>) s7))
      \<or> snd (scan_and_translate e names s) = snd (sheets_loop e names s9)
      \<or> snd (scan_and_translate e names s) = save_result e (snd (sheets_loop e names s9))"
    by (simp add: scan_and_translate_def Let_def case_prod_beta c_def s7_def s9_def)
  then show ?thesis
    using progress_ok_trace [OF 0] progress_ok_trace [OF 10] save_result_trace [OF 10]
    by metis
qed

text \<open>
  C5. The values assigned to the \<open>progress\<close> field over a run, in order, never
  decrease and never exceed 100. The engine computes a value as the float expression
  \<open>int((processed / total_cells) * 100)\<close>; what the proof takes from it is that, for
  a fixed total, it does not decrease when \<open>processed\<close> grows, and is not negative.
\<close>

theorem progress_monotone:
  assumes "\<forall>t p q. p \<le> q \<longrightarrow> percent e p t \<le> percent e q t" "\<forall>p t. 0 \<le> percent e p t"
  shows "sorted (map progress (assigned F_progress (log (run e t0))))
       \<and> list_all (\<lambda>t. progress t \<le> 100) (assigned F_progress (log (run e t0)))"
proof -
  define P :: "state \<Rightarrow> bool" where "P = (\<lambda>s. sorted (map progress (assigned F_progress (log s)))
       \<and> list_all (\<lambda>t. progress t \<le> 100) (assigned F_progress (log s)))"
  have m: "percent_monotone e" using assms by (simp add: percent_monotone_def)
  have T: "P (snd (scan_and_translate e names s'))"
    if "assigned F_progress (log s') = []" for names s'
    unfolding P_def by (rule scan_and_translate_trace [OF m that])
  have F: "P (fail_with msg s')" if "P s'" for msg s'
    using that by (simp add: P_def fail_with_def assign_def)
  have E: "P s'" if "assigned F_progress (log s') = []" for s'
    using that by (simp add: P_def)
  define s3 where "s3 = assign F_message (\<lambda>t. t\<lparr>message := MsgTestingApi\<rparr>)
      (assign F_status (\<lambda>t. t\<lparr>status := Running\<rparr>)
      (assign F_start_time (\<lambda>t. t\<lparr>start_time := Some (clock_start e)\<rparr>) (start_state t0)))"
  define s4 where "s4 = snd (call_translate e [27979, 35797] s3)"
  define s6 where "s6 = assign F_message (\<lambda>t. t\<lparr>message := MsgLoadingFile (filename t)\<rparr>)
      (assign F_message (\<lambda>t. t\<lparr>message := MsgApiTestPassed\<rparr>) s4)"
  have 4: "assigned F_progress (log s4) = []"
    by (simp add: s4_def s3_def call_translate_def case_prod_beta assign_def start_state_def
        split: option.split)
  have 6: "assigned F_progress (log s6) = []"
    using 4 by (simp add: s6_def assign_def)
  have 7: "assigned F_progress (log (assign F_sheet_names f
             (assign F_message g (s6\<lparr>sheets := sh\<rparr>)))) = []" for f g sh
    using 6 by (simp add: assign_def)
  have 8: "assigned F_progress (log (assign F_message g (s6\<lparr>sheets := sh\<rparr>))) = []" for g sh
    using 6 by (simp add: assign_def)
  have "P (snd (try_body e (start_state t0)))"
    unfolding try_body_def Let_def case_prod_beta s3_def [symmetric] s4_def [symmetric]
      s6_def [symmetric]
    by (auto split: load_result.split option.split sum.split
        intro!: T F E [OF 4] E [OF 6] E [OF 8] 7)
  then have "P (translate_excel_with_progress e (start_state t0))"
    using F by (simp add: translate_excel_with_progress_def case_prod_beta split: outcome.split)
  then show ?thesis by (simp add: P_def run_def)
qed

lemma demo_percent:
  "\<forall>t p q. p \<le> q \<longrightarrow> percent (demo_env replies) p t \<le> percent (demo_env replies) q t"
  "\<forall>p t. 0 \<le> percent (demo_env replies) p t"
proof -
  have "int p * 100 div int t \<le> int q * 100 div int t" if "p \<le> q" for p q t :: nat
    using that by (cases "t = 0") (simp_all add: zdiv_mono1)
  then show "\<forall>t p q. p \<le> q \<longrightarrow> percent (demo_env replies) p t \<le> percent (demo_env replies) q t"
    by (simp add: demo_env_def)
  have "0 \<le> int p * 100 div int t" for p t :: nat
    by (cases "t = 0") (simp_all add: pos_imp_zdiv_nonneg_iff)
  then show "\<forall>p t. 0 \<le> percent (demo_env replies) p t"
    by (simp add: demo_env_def)
qed

theorem progress_monotone_witness:
  "sorted (map progress (assigned F_progress (log (run (demo_env (\<lambda>_. TransResult [[79, 75]])) demo_task))))
   \<and> list_all (\<lambda>t. progress t \<le> 100)
       (assigned F_progress (log (run (demo_env (\<lambda>_. TransResult [[79, 75]])) demo_task)))"
  using progress_monotone [OF demo_percent, of "\<lambda>_. TransResult [[79, 75]]" demo_task]
  by simp

section \<open>The run that finds nothing to translate\<close>

lemma saves_append [simp]: "saves (xs @ ys) = saves xs @ saves ys"
  by (induction xs rule: saves.induct) auto

lemma count_cells_unfold:
  "\<exists>s2. task s2 = (task s)\<lparr>message := MsgCounting\<rparr>
      \<and> (\<exists>evs. log s2 = log s @ evs \<and> saves evs = [] \<and> sleeps evs = [])
      \<and> calls s2 = calls s \<and> (\<forall>w. cells (sheets s2 w) = cells (sheets s w))
      \<and> snd (count_cells e names s) =
         assign F_progress (\<lambda>t. t\<lparr>progress := 0\<rparr>)
          (assign F_skipped_cells (\<lambda>t. t\<lparr>skipped_cells := 0\<rparr>)
          (assign F_error_cells (\<lambda>t. t\<lparr>error_cells := 0\<rparr>)
          (assign F_translated_cells (\<lambda>t. t\<lparr>translated_cells := 0\<rparr>)
          (assign F_total_cells
             (\<lambda>t. t\<lparr>total_cells := fst (fst (count_cells e names s))
                                      + snd (fst (count_cells e names s))\<rparr>) s2))))"
proof -
  define s1 where "s1 = assign F_message (\<lambda>t. t\<lparr>message := MsgCounting\<rparr>) s"
  define r where "r = prescan_sheets e names (columns (task s1)) (start_row (task s1))
               (end_row (task s1)) ((0, 0), s1)"
  have k: "task (snd r) = task s1" "log (snd r) = log s1" "calls (snd r) = calls s1"
    "\<forall>w. cells (sheets (snd r) w) = cells (sheets s1 w)"
    using prescan_sheets_kept [of e names _ _ _ "(0, 0)" s1] by (simp_all add: r_def)
  have 1: "task s1 = (task s)\<lparr>message := MsgCounting\<rparr>"
    "log s1 = log s @ [Assigned F_message ((task s)\<lparr>message := MsgCounting\<rparr>)]"
    "calls s1 = calls s" "sheets s1 = sheets s"
    by (simp_all add: s1_def assign_def)
  have eq: "snd (count_cells e names s) =
      assign F_progress (\<lambda>t. t\<lparr>progress := 0\<rparr>)
        (assign F_skipped_cells (\<lambda>t. t\<lparr>skipped_cells := 0\<rparr>)
        (assign F_error_cells (\<lambda>t. t\<lparr>error_cells := 0\<rparr>)
        (assign F_translated_cells (\<lambda>t. t\<lparr>translated_cells := 0\<rparr>)
        (assign F_total_cells
           (\<lambda>t. t\<lparr>total_cells := fst (fst (count_cells e names s))
                                    + snd (fst (count_cells e names s))\<rparr>) (snd r)))))"
    by (simp add: count_cells_def Let_def case_prod_beta s1_def r_def)
  have "\<exists>evs. log (snd r) = log s @ evs \<and> saves evs = [] \<and> sleeps evs = []"
    using k(2) 1(2) by simp
  then show ?thesis using k 1 eq by metis
qed

text \<open>
  C9. The claim: when the pre-scan counts no cell, the task goes to \<open>completed\<close> with
  a progress of 100, no worksheet is processed and nothing is saved. In the code the task
  goes to \<open>completed\<close>, no translation is requested, no cell changes and nothing is
  saved, but the progress stays at the 0 assigned after the pre-scan; the path that ends
  with the save assigns 100 to it when it sets the status to \<open>completed\<close>.
\<close>

theorem empty_scan_completes:
  assumes "fst (count_cells e names s) = (0, 0)"
    and "s' = snd (scan_and_translate e names s)"
  shows "status (task s') = Completed \<and> progress (task s') = 0 \<and> total_cells (task s') = 0
       \<and> saves (log s') = saves (log s) \<and> calls s' = calls s \<and> sleeps (log s') = sleeps (log s)
       \<and> (\<forall>w. cells (sheets s' w) = cells (sheets s w))"
proof -
  obtain s2 where s2: "task s2 = (task s)\<lparr>message := MsgCounting\<rparr>"
    "\<exists>evs. log s2 = log s @ evs \<and> saves evs = [] \<and> sleeps evs = []"
    "calls s2 = calls s" "\<forall>w. cells (sheets s2 w) = cells (sheets s w)"
    and eq: "snd (count_cells e names s) =
         assign F_progress (\<lambda>t. t\<lparr>progress := 0\<rparr>)
          (assign F_skipped_cells (\<lambda>t. t\<lparr>skipped_cells := 0\<rparr>)
          (assign F_error_cells (\<lambda>t. t\<lparr>error_cells := 0\<rparr>)
          (assign F_translated_cells (\<lambda>t. t\<lparr>translated_cells := 0\<rparr>)
          (assign F_total_cells
             (\<lambda>t. t\<lparr>total_cells := fst (fst (count_cells e names s))
                                      + snd (fst (count_cells e names s))\<rparr>) s2))))"
    using count_cells_unfold [of s e names] by blast
  obtain evs where evs: "log s2 = log s @ evs" "saves evs = []" "sleeps evs = []"
    using s2(2) by blast
  have "s' = assign F_end_time (\<lambda>t. t\<lparr>end_time := Some (clock_end e)\<rparr>)
      (assign F_status (\<lambda>t. t\<lparr>status := Completed\<rparr>)
      (assign F_message (\<lambda>t. t\<lparr>message := MsgNothingToDo\<rparr>) (snd (count_cells e names s))))"
    using assms by (simp add: scan_and_translate_def Let_def case_prod_beta)
  then show ?thesis
    unfolding eq using assms(1) s2(1,3,4) evs by (simp add: assign_def)
qed

lemma demo_column_E: "column_index_from_string (upper (demo_env replies)) [69] = Some 5"
  by (simp add: column_index_from_string_def demo_env_def)

lemma demo_strip_blank: "strip [] = []"
  by (simp add: strip_def lstrip_def rstrip_def)

lemma demo_count_E:
  "fst (count_cells (demo_env replies) [[83]]
     (demo_state\<lparr>task := (task demo_state)\<lparr>columns := [[69]]\<rparr>\<rparr>)) = (0, 0)"
  by (simp add: count_cells_def Let_def case_prod_beta assign_def demo_state_def start_state_def
      demo_task_def TranslationTask_def demo_column_E demo_workbook_def demo_sheet_def
      touch_row_def prescan_cell_def empty_cell_def upto_rec1 [of 2 3] upto_rec1 [of 3 3])

theorem empty_scan_completes_witness:
  "status (task (snd (scan_and_translate (demo_env (\<lambda>_. TransResult [[79, 75]])) [[83]]
      (demo_state\<lparr>task := (task demo_state)\<lparr>columns := [[69]]\<rparr>\<rparr>)))) = Completed
   \<and> progress (task (snd (scan_and_translate (demo_env (\<lambda>_. TransResult [[79, 75]])) [[83]]
      (demo_state\<lparr>task := (task demo_state)\<lparr>columns := [[69]]\<rparr>\<rparr>)))) = 0
   \<and> saves (log (snd (scan_and_translate (demo_env (\<lambda>_. TransResult [[79, 75]])) [[83]]
      (demo_state\<lparr>task := (task demo_state)\<lparr>columns := [[69]]\<rparr>\<rparr>)))) = []"
  using empty_scan_completes [OF demo_count_E refl, of "\<lambda>_. TransResult [[79, 75]]"]
  by (simp add: demo_state_def start_state_def)

section \<open>The counters stay within the total\<close>

lemma within_refl [simp]: "within n s s"
  by (simp add: within_def)

lemma withinI:
  assumes "log s' = log s @ evs"
    and "list_all (\<lambda>t. total_cells t = total_cells (task s)
                       \<and> processed t \<le> processed (task s) + n) (observed evs)"
    and "total_cells (task s') = total_cells (task s)"
    and "processed (task s') \<le> processed (task s) + n"
    and "columns (task s') = columns (task s)" "start_row (task s') = start_row (task s)"
    and "end_row (task s') = end_row (task s)"
    and "\<And>w rc. countable (cvalue (cells (sheets s' w) rc))
                  \<Longrightarrow> countable (cvalue (cells (sheets s w) rc))"
    and "\<And>w. max_row (sheets s' w) = max_row (sheets s w)"
  shows "within n s s'"
  unfolding within_def using assms by blast

lemma within_log:
  assumes "within n s s'"
  obtains evs where "log s' = log s @ evs"
    and "list_all (\<lambda>t. total_cells t = total_cells (task s)
                       \<and> processed t \<le> processed (task s) + n) (observed evs)"
  using assms unfolding within_def by blast

lemma within_task:
  assumes "within n s s'"
  shows "total_cells (task s') = total_cells (task s)"
    and "processed (task s') \<le> processed (task s) + n"
    and "columns (task s') = columns (task s)" "start_row (task s') = start_row (task s)"
    and "end_row (task s') = end_row (task s)"
  using assms unfolding within_def by blast+

lemma within_cells:
  "within n s s' \<Longrightarrow> countable (cvalue (cells (sheets s' w) rc))
     \<Longrightarrow> countable (cvalue (cells (sheets s w) rc))"
  unfolding within_def by blast

lemma within_max_row: "within n s s' \<Longrightarrow> max_row (sheets s' w) = max_row (sheets s w)"
  unfolding within_def by blast

lemma within_mono:
  assumes "within n s s'" "n \<le> m"
  shows "within m s s'"
proof -
  obtain evs where evs: "log s' = log s @ evs"
    "list_all (\<lambda>t. total_cells t = total_cells (task s)
                   \<and> processed t \<le> processed (task s) + n) (observed evs)"
    using assms(1) by (rule within_log)
  have "list_all (\<lambda>t. total_cells t = total_cells (task s)
                   \<and> processed t \<le> processed (task s) + m) (observed evs)"
    using evs(2) assms(2) by (auto simp: list_all_iff)
  then show ?thesis
    using evs(1) within_task [OF assms(1)] within_cells [OF assms(1)]
      within_max_row [OF assms(1)] assms(2)
    by (intro withinI [where evs = evs]) auto
qed

lemma within_trans:
  assumes "within n s s'" "within m s' s''"
  shows "within (n + m) s s''"
proof -
  obtain evs where evs: "log s' = log s @ evs"
    "list_all (\<lambda>t. total_cells t = total_cells (task s)
                   \<and> processed t \<le> processed (task s) + n) (observed evs)"
    using assms(1) by (rule within_log)
  obtain evs' where evs': "log s'' = log s' @ evs'"
    "list_all (\<lambda>t. total_cells t = total_cells (task s')
                   \<and> processed t \<le> processed (task s') + m) (observed evs')"
    using assms(2) by (rule within_log)
  note t = within_task [OF assms(1)]
  note t' = within_task [OF assms(2)]
  have 1: "list_all (\<lambda>t. total_cells t = total_cells (task s)
                   \<and> processed t \<le> processed (task s) + (n + m)) (observed evs)"
    using evs(2) by (auto simp: list_all_iff)
  have 2: "list_all (\<lambda>t. total_cells t = total_cells (task s)
                   \<and> processed t \<le> processed (task s) + (n + m)) (observed evs')"
    using evs'(2) t(1,2) by (auto simp: list_all_iff)
  show ?thesis
  proof (rule withinI [where evs = "evs @ evs'"])
    show "log s'' = log s @ evs @ evs'" by (simp add: evs(1) evs'(1))
    show "list_all (\<lambda>t. total_cells t = total_cells (task s)
                   \<and> processed t \<le> processed (task s) + (n + m)) (observed (evs @ evs'))"
      using 1 2 by simp
    show "total_cells (task s'') = total_cells (task s)" using t(1) t'(1) by simp
    show "processed (task s'') \<le> processed (task s) + (n + m)" using t(2) t'(2) by simp
    show "columns (task s'') = columns (task s)" using t(3) t'(3) by simp
    show "start_row (task s'') = start_row (task s)" using t(4) t'(4) by simp
    show "end_row (task s'') = end_row (task s)" using t(5) t'(5) by simp
    show "countable (cvalue (cells (sheets s w) rc))"
      if "countable (cvalue (cells (sheets s'' w) rc))" for w rc
      using that within_cells [OF assms(2)] within_cells [OF assms(1)] by blast
    show "max_row (sheets s'' w) = max_row (sheets s w)" for w
      using within_max_row [OF assms(1)] within_max_row [OF assms(2)] by simp
  qed
qed

lemma within_step:
  "within n s s' \<Longrightarrow> within m s' s'' \<Longrightarrow> n + m \<le> k \<Longrightarrow> within k s s''"
  using within_mono [OF within_trans] by blast

text \<open>The steps of the loop body.\<close>

lemma within_assign:
  assumes "total_cells (f (task s)) = total_cells (task s)"
    and "processed (f (task s)) \<le> processed (task s) + n"
    and "columns (f (task s)) = columns (task s)" "start_row (f (task s)) = start_row (task s)"
    and "end_row (f (task s)) = end_row (task s)"
  shows "within n s (assign fld f s)"
  using assms by (intro withinI [where evs = "[Assigned fld (f (task s))]"]) (simp_all add: assign_def)

lemma within_quiet:
  assumes "task s' = task s" "log s' = log s @ evs" "observed evs = []"
    and "\<And>w rc. countable (cvalue (cells (sheets s' w) rc))
                  \<Longrightarrow> countable (cvalue (cells (sheets s w) rc))"
    and "\<And>w. max_row (sheets s' w) = max_row (sheets s w)"
  shows "within n s s'"
  using assms by (intro withinI [where evs = evs]) simp_all

lemma within_sleep: "within n s (sleep d s)"
  by (rule within_quiet [where evs = "[Slept d]"]) (simp_all add: sleep_def)

lemma within_call_translate: "within n s (snd (call_translate e q s))"
proof (cases "fst (baidu_translate (md5_hexdigest e) (send e (calls s)) (draws e (calls s)) q
                 (app_id (task s)) (app_key (task s)))")
  case None
  then show ?thesis
    by (intro within_quiet [where evs = "[]"]) (simp_all add: call_translate_def case_prod_beta)
next
  case (Some p)
  then show ?thesis
    by (intro within_quiet [where evs = "[Requested p]"])
      (simp_all add: call_translate_def case_prod_beta)
qed

lemma within_update_cell_style:
  "(\<And>c. cvalue (f c) = cvalue c) \<Longrightarrow> within n s (update_cell ws rc f s)"
  by (rule within_quiet [where evs = "[]"]) (auto simp: update_cell_def split: if_splits)

lemma within_update_cell_value:
  "countable (cvalue (cells (sheets s ws) rc)) \<Longrightarrow> within n s (update_cell ws rc f s)"
  by (rule within_quiet [where evs = "[]"]) (auto simp: update_cell_def split: if_splits)

lemma within_set_value:
  "countable (cvalue (cells (sheets s ws) rc)) \<Longrightarrow> within n s (snd (set_value ws rc v s))"
  by (simp add: set_value_cases within_update_cell_value)

lemma within_update_progress: "within n s (update_progress e s)"
proof -
  define s1 where "s1 = assign F_progress
     (\<lambda>t. t\<lparr>progress := min 100 (percent e
        (translated_cells (task s) + error_cells (task s) + skipped_cells (task s))
        (total_cells t))\<rparr>) s"
  define fm :: "task \<Rightarrow> task" where "fm = (\<lambda>t. t\<lparr>message := MsgCellProgress (current_sheet t)
      (current_cell t) (translated_cells t) (skipped_cells t) (error_cells t)\<rparr>)"
  have 1: "within 0 s s1"
    unfolding s1_def by (rule within_assign) (simp_all add: processed_def)
  have 2: "within 0 s1 (assign F_message fm s1)"
    by (rule within_assign) (simp_all add: processed_def fm_def)
  have "update_progress e s = s \<or> update_progress e s = s1
      \<or> update_progress e s = assign F_message fm s1"
    by (simp add: update_progress_def Let_def s1_def fm_def)
  then show ?thesis
    using within_mono [OF 1, of n] within_step [OF 1 2, of n] by auto
qed

lemma within_skip_cell:
  assumes "countable (cvalue (cells (sheets s ws) rc))"
  shows "within 1 s (snd (skip_cell e ws rc cv s))"
proof -
  define adjusted_value where "adjusted_value = check_and_adjust_translation_order (PStr cv)"
  define x where "x = (if adjusted_value \<noteq> PStr cv
                       then (case adjusted_value of
                               PStr a \<Rightarrow> set_value ws rc a s
                             | _ \<Rightarrow> (Normal, update_cell ws rc
                                                  (\<lambda>c. c\<lparr>cvalue := adjusted_value\<rparr>) s))
                       else (Normal, s))"
  define s2 where "s2 = assign F_skipped_cells (\<lambda>t. t\<lparr>skipped_cells := skipped_cells t + 1\<rparr>) (snd x)"
  have 1: "within 0 s (snd x)"
    using within_set_value [OF assms] within_update_cell_value [OF assms]
    by (simp add: x_def split: pyval.split)
  have 2: "within 1 (snd x) s2"
    unfolding s2_def by (rule within_assign) (simp_all add: processed_def)
  have 3: "within 0 s2 (update_progress e s2)" by (rule within_update_progress)
  have "snd (skip_cell e ws rc cv s) = snd x
      \<or> snd (skip_cell e ws rc cv s) = update_progress e s2"
    unfolding x_def adjusted_value_def s2_def
    by (simp add: skip_cell_def Let_def case_prod_beta)
  then show ?thesis
    using within_mono [OF 1, of 1] within_step [OF within_step [OF 1 2, of 1] 3, of 1] by auto
qed

lemma within_fail_cell: "within 1 s (fail_cell e ws rc s)"
proof -
  define s1 where "s1 = assign F_error_cells (\<lambda>t. t\<lparr>error_cells := error_cells t + 1\<rparr>) s"
  define s2 where "s2 = update_cell ws rc (\<lambda>c. c\<lparr>cfill := highlight_fill\<rparr>) s1"
  define s3 where "s3 = update_cell ws rc (\<lambda>c. c\<lparr>cfont := highlight_font\<rparr>) s2"
  have 1: "within 1 s s1"
    unfolding s1_def by (rule within_assign) (simp_all add: processed_def)
  have 2: "within 0 s1 s2" unfolding s2_def by (rule within_update_cell_style) simp
  have 3: "within 0 s2 s3" unfolding s3_def by (rule within_update_cell_style) simp
  have 4: "within 0 s3 (update_progress e s3)" by (rule within_update_progress)
  have "fail_cell e ws rc s = update_progress e s3"
    by (simp add: fail_cell_def Let_def s1_def s2_def s3_def)
  then show ?thesis
    using within_step [OF within_step [OF within_step [OF 1 2, of 1] 3, of 1] 4, of 1] by simp
qed

lemma within_write_translation:
  assumes "countable (cvalue (cells (sheets s ws) rc))"
  shows "within 1 s (snd (write_translation ws rc cv et s))"
proof (cases et)
  case None
  then show ?thesis by (simp add: write_translation_def)
next
  case (Some english)
  define s11 where "s11 = update_cell ws rc
      (\<lambda>c. c\<lparr>cvalue := PStr (take 32767 (english @ [newline] @ cv))\<rparr>) s"
  define s12 where "s12 = update_cell ws rc (\<lambda>c. c\<lparr>calignment := wrap_alignment\<rparr>) s11"
  define s13 where "s13 = assign F_translated_cells
     (\<lambda>t. t\<lparr>translated_cells := translated_cells t + 1\<rparr>) s12"
  have 11: "within 0 s s11" unfolding s11_def by (rule within_update_cell_value [OF assms])
  have 12: "within 0 s11 s12" unfolding s12_def by (rule within_update_cell_style) simp
  have 13: "within 1 s12 s13"
    unfolding s13_def by (rule within_assign) (simp_all add: processed_def)
  have 14: "within 0 s13 (s13\<lparr>columns_to_adjust := d\<rparr>)" for d
    by (rule within_quiet [where evs = "[]"]) simp_all
  have a: "within 1 s s13" using within_step [OF within_step [OF 11 12, of 0] 13, of 1] by simp
  have b: "within 1 s (s13\<lparr>columns_to_adjust := d\<rparr>)" for d
    using within_step [OF a 14, of 1] by simp
  show ?thesis
    using a b
    by (simp add: write_translation_def set_value_cases Some Let_def s11_def s12_def s13_def
        del: take_append split: option.split)
qed

lemma within_finish_cell:
  assumes "countable (cvalue (cells (sheets s ws) rc))"
  shows "within 1 s (snd (finish_cell e ws rc cv et s))"
proof -
  define s1 where "s1 = snd (write_translation ws rc cv et s)"
  have 1: "within 1 s s1" unfolding s1_def by (rule within_write_translation [OF assms])
  have 2: "within 0 s1 (update_progress e s1)" by (rule within_update_progress)
  have 3: "within 0 (update_progress e s1) (sleep 15 (update_progress e s1))"
    by (rule within_sleep)
  have "snd (finish_cell e ws rc cv et s) = s1
      \<or> snd (finish_cell e ws rc cv et s) = sleep 15 (update_progress e s1)"
    by (simp add: finish_cell_def case_prod_beta s1_def)
  then show ?thesis
    using 1 within_step [OF within_step [OF 1 2, of 1] 3, of 1] by auto
qed

lemma within_translate_cell:
  assumes "countable (cvalue (cells (sheets s ws) rc))"
  shows "within 1 s (snd (translate_cell e ws rc cv s))"
proof -
  define s2 where "s2 = snd (call_translate e cv s)"
  define s3 where "s3 = assign F_message (\<lambda>t. t\<lparr>message := MsgRateLimitWait\<rparr>) s2"
  define s4 where "s4 = sleep 100 s3"
  define s5 where "s5 = snd (call_translate e cv s4)"
  have s4': "s4 = sleep 100 (assign F_message (\<lambda>t. t\<lparr>message := MsgRateLimitWait\<rparr>) s2)"
    by (simp add: s4_def s3_def)
  note u = translate_cell_unfold [OF refl s2_def [symmetric] s4' refl s5_def [symmetric],
      of ws rc]
  have 2: "within 0 s s2" unfolding s2_def by (rule within_call_translate)
  have 3: "within 0 s2 s3"
    unfolding s3_def by (rule within_assign) (simp_all add: processed_def)
  have 4: "within 0 s3 s4" unfolding s4_def by (rule within_sleep)
  have 5: "within 0 s4 s5" unfolding s5_def by (rule within_call_translate)
  have 05: "within 0 s s5"
    using within_step [OF within_step [OF within_step [OF 2 3, of 0] 4, of 0] 5, of 0] by simp
  have c2: "countable (cvalue (cells (sheets s2 ws) rc))"
    using assms by (simp add: s2_def)
  have c5: "countable (cvalue (cells (sheets s5 ws) rc))"
    using assms by (simp add: s5_def s4_def s3_def s2_def)
  have a: "within 1 s (snd (finish_cell e ws rc cv et s2))" for et
    using within_step [OF 2 within_finish_cell [OF c2], of 1] by simp
  have b: "within 1 s (snd (finish_cell e ws rc cv et s5))" for et
    using within_step [OF 05 within_finish_cell [OF c5], of 1] by simp
  have c: "within 1 s (fail_cell e ws rc s5)"
    using within_step [OF 05 within_fail_cell, of 1] by simp
  show ?thesis
    using a b c within_mono [OF 2, of 1] within_mono [OF 05, of 1]
    by (simp add: u split: sum.split)
qed

lemma within_process_cell:
  "within (if countable (cvalue (cells (sheets s ws) (row_idx, col_index))) then 1 else 0) s
     (snd (process_cell e ws col_letter col_index row_idx s))"
proof (cases "countable (cvalue (cells (sheets s ws) (row_idx, col_index)))")
  case False
  then have "process_cell e ws col_letter col_index row_idx s = (Normal, s)"
    by (auto simp: process_cell_def countable_def Let_def split: pyval.split)
  then show ?thesis by simp
next
  case True
  define s1 where "s1 = assign F_current_cell (\<lambda>t. t\<lparr>current_cell := col_letter @ str row_idx\<rparr>) s"
  have 1: "within 0 s s1"
    unfolding s1_def by (rule within_assign) (simp_all add: processed_def)
  have c1: "countable (cvalue (cells (sheets s1 ws) (row_idx, col_index)))"
    using True by (simp add: s1_def)
  have a: "within 1 s (snd (skip_cell e ws (row_idx, col_index) cv s1))" for cv
    using within_step [OF 1 within_skip_cell [OF c1], of 1] by simp
  have b: "within 1 s (snd (translate_cell e ws (row_idx, col_index) cv s1))" for cv
    using within_step [OF 1 within_translate_cell [OF c1], of 1] by simp
  show ?thesis
    using True a b
    by (simp add: process_cell_def Let_def s1_def [symmetric] split: pyval.split)
qed

text \<open>The counts do not grow when texts to process only disappear.\<close>

lemma filter_length_mono:
  "(\<And>x. P x \<Longrightarrow> Q x) \<Longrightarrow> length (filter P xs) \<le> length (filter Q xs)"
  by (induction xs) auto

lemma cnt_rows_mono:
  assumes "\<And>w rc. countable (cvalue (cells (S' w) rc)) \<Longrightarrow> countable (cvalue (cells (S w) rc))"
  shows "cnt_rows S' ws col_index rows \<le> cnt_rows S ws col_index rows"
  unfolding cnt_rows_def by (rule filter_length_mono) (rule assms)

lemma cnt_cols_mono:
  assumes "\<And>w rc. countable (cvalue (cells (S' w) rc)) \<Longrightarrow> countable (cvalue (cells (S w) rc))"
  shows "cnt_cols e S' ws cols rows \<le> cnt_cols e S ws cols rows"
proof (induction cols)
  case Nil
  show ?case by simp
next
  case (Cons col_letter cols)
  show ?case
    using Cons cnt_rows_mono [of S' S ws _ rows, OF assms]
    by (auto split: option.split intro: add_mono)
qed

lemma cnt_sheets_mono:
  assumes "\<And>w rc. countable (cvalue (cells (S' w) rc)) \<Longrightarrow> countable (cvalue (cells (S w) rc))"
  shows "cnt_sheets e S' R names cols \<le> cnt_sheets e S R names cols"
proof (induction names)
  case Nil
  show ?case by simp
next
  case (Cons sheet_name names)
  show ?case
    using Cons cnt_cols_mono [of S' S e sheet_name cols "R sheet_name", OF assms]
    by simp
qed

lemma cnt_rows_Cons:
  "cnt_rows S ws col_index (row_idx # rows) =
     (if countable (cvalue (cells (S ws) (row_idx, col_index))) then 1 else 0)
     + cnt_rows S ws col_index rows"
  by (simp add: cnt_rows_def)

text \<open>The loops of the worksheet pass.\<close>

lemma within_rows_loop:
  "within (cnt_rows (sheets s) ws col_index rows) s
     (snd (rows_loop e ws col_letter col_index rows s))"
proof (induction rows arbitrary: s)
  case Nil
  show ?case by simp
next
  case (Cons row_idx rows)
  define r where "r = snd (rows_loop e ws col_letter col_index (row_idx # rows) s)"
  define s1 where "s1 = snd (process_cell e ws col_letter col_index row_idx s)"
  define k :: nat where
    "k = (if countable (cvalue (cells (sheets s ws) (row_idx, col_index))) then 1 else 0)"
  have d: "r = s \<or> r = s1 \<or> r = snd (rows_loop e ws col_letter col_index rows s1)"
    unfolding r_def s1_def by (rule rows_loop_step)
  have 1: "within k s s1" unfolding k_def s1_def by (rule within_process_cell)
  have 2: "within (cnt_rows (sheets s1) ws col_index rows) s1
             (snd (rows_loop e ws col_letter col_index rows s1))"
    by (rule Cons.IH)
  have m: "cnt_rows (sheets s1) ws col_index rows \<le> cnt_rows (sheets s) ws col_index rows"
    by (rule cnt_rows_mono) (rule within_cells [OF 1])
  have n: "cnt_rows (sheets s) ws col_index (row_idx # rows)
             = k + cnt_rows (sheets s) ws col_index rows"
    by (simp add: cnt_rows_Cons k_def)
  have "within (cnt_rows (sheets s) ws col_index (row_idx # rows)) s r"
    using d within_mono [OF 1, of "cnt_rows (sheets s) ws col_index (row_idx # rows)"]
      within_step [OF 1 2, of "cnt_rows (sheets s) ws col_index (row_idx # rows)"] m n
    by auto
  then show ?case unfolding r_def .
qed

lemma within_columns_loop:
  "within (cnt_cols e (sheets s) ws cols rows) s (snd (columns_loop e ws cols rows s))"
proof (induction cols arbitrary: s)
  case Nil
  show ?case by simp
next
  case (Cons col_letter cols)
  show ?case
  proof (cases "column_index_from_string (upper e) col_letter")
    case None
    then show ?thesis using Cons.IH [of s] by simp
  next
    case (Some col_index)
    define s1 where "s1 = s\<lparr>columns_to_adjust := dict_set col_index 0 (columns_to_adjust s)\<rparr>"
    define s2 where "s2 = snd (rows_loop e ws col_letter col_index rows s1)"
    define r where "r = snd (columns_loop e ws (col_letter # cols) rows s)"
    have d: "r = s2 \<or> r = snd (columns_loop e ws cols rows s2)"
      unfolding r_def by (rule columns_loop_step [OF Some s1_def s2_def])
    have 1: "within 0 s s1"
      unfolding s1_def by (rule within_quiet [where evs = "[]"]) simp_all
    have "within (cnt_rows (sheets s1) ws col_index rows) s1 s2"
      unfolding s2_def by (rule within_rows_loop)
    then have 2: "within (cnt_rows (sheets s) ws col_index rows) s1 s2" by (simp add: s1_def)
    have 02: "within (cnt_rows (sheets s) ws col_index rows) s s2"
      by (rule within_step [OF 1 2]) simp
    have 3: "within (cnt_cols e (sheets s2) ws cols rows) s2 (snd (columns_loop e ws cols rows s2))"
      by (rule Cons.IH)
    have m: "cnt_cols e (sheets s2) ws cols rows \<le> cnt_cols e (sheets s) ws cols rows"
      by (rule cnt_cols_mono) (rule within_cells [OF 02])
    have n: "cnt_cols e (sheets s) ws (col_letter # cols) rows
               = cnt_rows (sheets s) ws col_index rows + cnt_cols e (sheets s) ws cols rows"
      by (simp add: Some)
    have "within (cnt_cols e (sheets s) ws (col_letter # cols) rows) s r"
      using d within_mono [OF 02, of "cnt_cols e (sheets s) ws (col_letter # cols) rows"]
        within_step [OF 02 3, of "cnt_cols e (sheets s) ws (col_letter # cols) rows"] m n
      by auto
    then show ?thesis unfolding r_def .
  qed
qed

lemma only_changed_within:
  "only_changed {} W H s s' \<Longrightarrow> task s' = task s \<Longrightarrow> log s' = log s \<Longrightarrow> within n s s'"
  by (rule within_quiet [where evs = "[]"]) (auto simp: only_changed_def)

lemma within_translate_worksheet:
  "within (cnt_cols e (sheets s) ws cols (pass_rows (sheets s) srow erow ws)) s
     (snd (translate_worksheet_with_progress e ws cols srow erow s))"
  (is "within ?n s _")
proof (cases "clamp_start srow > clamp_end (sheets s ws) erow")
  case True
  have "within ?n s (assign F_message
          (\<lambda>t. t\<lparr>message := MsgRowRange (clamp_start srow) (clamp_end (sheets s ws) erow)\<rparr>) s)"
    by (rule within_assign) (simp_all add: processed_def)
  then show ?thesis using True by (simp add: translate_worksheet_with_progress_def Let_def)
next
  case False
  define rows where "rows = [clamp_start srow..clamp_end (sheets s ws) erow]"
  define s0 where "s0 = s\<lparr>columns_to_adjust := []\<rparr>"
  define s1 where "s1 = snd (columns_loop e ws cols rows s0)"
  define s2 where "s2 = adjust_widths ws (columns_to_adjust s1) s1"
  define s3 where "s3 = adjust_heights e ws cols rows s2"
  have n: "?n = cnt_cols e (sheets s0) ws cols rows"
    by (simp add: pass_rows_def rows_def s0_def)
  have 0: "within 0 s s0"
    unfolding s0_def by (rule within_quiet [where evs = "[]"]) simp_all
  have 1: "within ?n s0 s1" unfolding n s1_def by (rule within_columns_loop)
  have 2: "within 0 s1 s2"
    unfolding s2_def by (rule only_changed_within [OF adjust_widths_changed]) simp_all
  have 3: "within 0 s2 s3"
    unfolding s3_def by (rule only_changed_within [OF adjust_heights_changed]) simp_all
  have 01: "within ?n s s1" by (rule within_step [OF 0 1]) simp
  have 02: "within ?n s s2" by (rule within_step [OF 01 2]) simp
  have 03: "within ?n s s3" by (rule within_step [OF 02 3]) simp
  have "snd (translate_worksheet_with_progress e ws cols srow erow s) = s1
      \<or> snd (translate_worksheet_with_progress e ws cols srow erow s) = s3"
    using False
    by (simp add: translate_worksheet_with_progress_def Let_def rows_def s0_def s1_def s2_def
        s3_def case_prod_beta)
  then show ?thesis using 01 03 by auto
qed

lemma pass_rows_max_row:
  assumes "\<And>w. max_row (S' w) = max_row (S w)"
  shows "pass_rows S' srow erow = pass_rows S srow erow"
  by (rule ext) (simp add: pass_rows_def clamp_end_def Let_def assms split: option.split)

lemma within_sheets_loop:
  "within (cnt_sheets e (sheets s) (pass_rows (sheets s) (start_row (task s)) (end_row (task s)))
             names (columns (task s))) s
     (snd (sheets_loop e names s))"
proof (induction names arbitrary: s)
  case Nil
  show ?case by simp
next
  case (Cons sheet_name names)
  define cols where "cols = columns (task s)"
  define srow where "srow = start_row (task s)"
  define erow where "erow = end_row (task s)"
  define s1 where "s1 = assign F_current_sheet (\<lambda>t. t\<lparr>current_sheet := sheet_name\<rparr>) s"
  define s2 where "s2 = assign F_message (\<lambda>t. t\<lparr>message := MsgSheet sheet_name\<rparr>) s1"
  define s3 where "s3 = snd (translate_worksheet_with_progress e sheet_name
      (columns (task s2)) (start_row (task s2)) (end_row (task s2)) s2)"
  define r where "r = snd (sheets_loop e (sheet_name # names) s)"
  define k where "k = cnt_cols e (sheets s) sheet_name cols (pass_rows (sheets s) srow erow sheet_name)"
  define n where "n = cnt_sheets e (sheets s) (pass_rows (sheets s) srow erow) names cols"
  have 1: "within 0 s s1"
    unfolding s1_def by (rule within_assign) (simp_all add: processed_def)
  have 2: "within 0 s1 s2"
    unfolding s2_def by (rule within_assign) (simp_all add: processed_def)
  have 02: "within 0 s s2" by (rule within_step [OF 1 2]) simp
  have j: "columns (task s2) = cols" "start_row (task s2) = srow" "end_row (task s2) = erow"
    "sheets s2 = sheets s"
    by (simp_all add: s2_def s1_def assign_def cols_def srow_def erow_def)
  have "within (cnt_cols e (sheets s2) sheet_name (columns (task s2))
                  (pass_rows (sheets s2) (start_row (task s2)) (end_row (task s2)) sheet_name))
          s2 s3"
    unfolding s3_def by (rule within_translate_worksheet)
  then have 3: "within k s2 s3" by (simp add: j k_def)
  have 03: "within k s s3" by (rule within_step [OF 02 3]) simp
  have 4: "within 0 s3 (assign F_status (\<lambda>t. t\<lparr>status := Failed\<rparr>) s3)"
    by (rule within_assign) (simp_all add: processed_def)
  have 04: "within k s (assign F_status (\<lambda>t. t\<lparr>status := Failed\<rparr>) s3)"
    by (rule within_step [OF 03 4]) simp
  have j3: "columns (task s3) = cols" "start_row (task s3) = srow" "end_row (task s3) = erow"
    using within_task(3,4,5) [OF 03] by (simp_all add: cols_def srow_def erow_def)
  have p3: "pass_rows (sheets s3) srow erow = pass_rows (sheets s) srow erow"
    by (rule pass_rows_max_row) (rule within_max_row [OF 03])
  have "within (cnt_sheets e (sheets s3)
                  (pass_rows (sheets s3) (start_row (task s3)) (end_row (task s3)))
                  names (columns (task s3))) s3 (snd (sheets_loop e names s3))"
    by (rule Cons.IH)
  then have 5: "within (cnt_sheets e (sheets s3) (pass_rows (sheets s) srow erow) names cols) s3
                  (snd (sheets_loop e names s3))"
    by (simp add: j3 p3)
  have m: "cnt_sheets e (sheets s3) (pass_rows (sheets s) srow erow) names cols \<le> n"
    unfolding n_def by (rule cnt_sheets_mono) (rule within_cells [OF 03])
  have 05: "within (k + n) s (snd (sheets_loop e names s3))"
    using within_step [OF 03 5, of "k + n"] m by simp
  have d: "r = s \<or> r = s3 \<or> r = assign F_status (\<lambda>t. t\<lparr>status := Failed\<rparr>) s3
      \<or> r = snd (sheets_loop e names s3)"
    by (simp add: r_def Let_def case_prod_beta s1_def [symmetric] s2_def [symmetric]
        s3_def [symmetric] split: outcome.split)
  have "within (k + n) s r"
    using d within_mono [OF 03, of "k + n"] within_mono [OF 04, of "k + n"] 05 by auto
  then show ?case
    unfolding r_def k_def n_def cols_def srow_def erow_def by simp
qed

text \<open>What the pre-scan counts.\<close>

lemma cnt_rows_cong:
  "(\<And>w. cells (S' w) = cells (S w)) \<Longrightarrow> cnt_rows S' ws col_index rows = cnt_rows S ws col_index rows"
  by (simp add: cnt_rows_def)

lemma cnt_cols_cong:
  assumes "\<And>w. cells (S' w) = cells (S w)"
  shows "cnt_cols e S' ws cols rows = cnt_cols e S ws cols rows"
  by (induction cols) (simp_all add: cnt_rows_cong [of S' S, OF assms] split: option.split)

lemma cnt_sheets_cong:
  assumes "\<And>w. cells (S' w) = cells (S w)"
  shows "cnt_sheets e S' R names cols = cnt_sheets e S R names cols"
  by (induction names) (simp_all add: cnt_cols_cong [of S' S, OF assms])

lemma cnt_rows_subset:
  assumes "distinct rows'" "set rows' \<subseteq> set rows"
  shows "cnt_rows S ws col_index rows' \<le> cnt_rows S ws col_index rows"
proof -
  let ?P = "\<lambda>row_idx. countable (cvalue (cells (S ws) (row_idx, col_index)))"
  have "length (filter ?P rows') = card (set (filter ?P rows'))"
    using assms(1) by (metis distinct_card distinct_filter)
  also have "\<dots> \<le> card (set (filter ?P rows))"
    using assms(2) by (intro card_mono) auto
  also have "\<dots> \<le> length (filter ?P rows)" by (rule card_length)
  finally show ?thesis by (simp add: cnt_rows_def)
qed

lemma prescan_cell_count:
  "fst (prescan_cell e v c) + snd (prescan_cell e v c)
     = fst c + snd c + (if countable v then 1 else 0)"
  by (simp add: prescan_cell_def countable_def split: pyval.split)

lemma touch_row_cells [simp]: "cells (sheets (touch_row ws row_idx s) w) = cells (sheets s w)"
  by (simp add: touch_row_def)

lemma touch_row_last:
  "row_idx \<le> last_scanned (sheets s ws) erow \<Longrightarrow>
   last_scanned (sheets (touch_row ws row_idx s) w) erow = last_scanned (sheets s w) erow"
  by (auto simp: touch_row_def last_scanned_def split: option.split)

lemma prescan_rows_count:
  "\<forall>row_idx \<in> set rows. 1 \<le> row_idx \<Longrightarrow>
   fst (fst (prescan_rows e ws col_index rows (c, s)))
     + snd (fst (prescan_rows e ws col_index rows (c, s)))
   = fst c + snd c + cnt_rows (sheets s) ws col_index rows"
proof (induction rows arbitrary: c s)
  case Nil
  show ?case by (simp add: cnt_rows_def)
next
  case (Cons row_idx rows)
  define s1 where "s1 = touch_row ws row_idx s"
  define c1 where "c1 = prescan_cell e (cvalue (cells (sheets s1 ws) (row_idx, col_index))) c"
  have r: "prescan_rows e ws col_index (row_idx # rows) (c, s)
             = prescan_rows e ws col_index rows (c1, s1)"
    using Cons.prems by (simp add: Let_def s1_def c1_def)
  have k: "cnt_rows (sheets s1) ws col_index rows = cnt_rows (sheets s) ws col_index rows"
    by (rule cnt_rows_cong) (simp add: s1_def)
  have 1: "fst c1 + snd c1 = fst c + snd c
          + (if countable (cvalue (cells (sheets s ws) (row_idx, col_index))) then 1 else 0)"
    unfolding c1_def by (simp add: prescan_cell_count s1_def)
  have "fst (fst (prescan_rows e ws col_index rows (c1, s1)))
          + snd (fst (prescan_rows e ws col_index rows (c1, s1)))
        = fst c1 + snd c1 + cnt_rows (sheets s1) ws col_index rows"
    using Cons.prems by (intro Cons.IH) simp
  then show ?case unfolding r k cnt_rows_Cons 1 by simp
qed

lemma prescan_rows_below:
  "srow < 1 \<Longrightarrow> prescan_rows e ws col_index [srow..l] (c, s) = (c, s)"
  by (cases "srow \<le> l") (simp_all add: upto_rec1)

lemma prescan_rows_last:
  "\<forall>row_idx \<in> set rows. row_idx \<le> last_scanned (sheets s ws) erow \<Longrightarrow>
   last_scanned (sheets (snd (prescan_rows e ws col_index rows (c, s))) w) erow
     = last_scanned (sheets s w) erow"
proof (induction rows arbitrary: c s)
  case Nil
  show ?case by simp
next
  case (Cons row_idx rows)
  define s1 where "s1 = touch_row ws row_idx s"
  have l: "last_scanned (sheets s1 w') erow = last_scanned (sheets s w') erow" for w'
    unfolding s1_def using Cons.prems by (intro touch_row_last) simp
  have "\<forall>row_idx \<in> set rows. row_idx \<le> last_scanned (sheets s1 ws) erow"
    using Cons.prems l by simp
  then show ?case
    using Cons.IH [of s1] l by (simp add: Let_def s1_def [symmetric])
qed

lemma prescan_columns_step:
  assumes "column_index_from_string (upper e) col_letter = Some col_index"
  shows "prescan_columns e ws (col_letter # cols) srow erow (c, s) =
     prescan_columns e ws cols srow erow
       (prescan_rows e ws col_index [srow..last_scanned (sheets s ws) erow] (c, s))"
  by (simp add: assms last_scanned_def Let_def)

lemma prescan_columns_last:
  "last_scanned (sheets (snd (prescan_columns e ws cols srow erow (c, s))) w) erow
     = last_scanned (sheets s w) erow"
proof (induction cols arbitrary: c s)
  case Nil
  show ?case by simp
next
  case (Cons col_letter cols)
  show ?case
  proof (cases "column_index_from_string (upper e) col_letter")
    case None
    then show ?thesis using Cons.IH by simp
  next
    case (Some col_index)
    define r where "r = prescan_rows e ws col_index [srow..last_scanned (sheets s ws) erow] (c, s)"
    have l: "last_scanned (sheets (snd r) w') erow = last_scanned (sheets s w') erow" for w'
      unfolding r_def by (rule prescan_rows_last) simp
    have "last_scanned (sheets (snd (prescan_columns e ws cols srow erow r)) w) erow
            = last_scanned (sheets s w) erow"
      using Cons.IH [of "fst r" "snd r"] l by simp
    then show ?thesis unfolding prescan_columns_step [OF Some] r_def [symmetric] .
  qed
qed

lemma prescan_sheets_last:
  "last_scanned (sheets (snd (prescan_sheets e names cols srow erow (c, s))) w) erow
     = last_scanned (sheets s w) erow"
proof (induction names arbitrary: c s)
  case Nil
  show ?case by simp
next
  case (Cons sheet_name names)
  define r where "r = prescan_columns e sheet_name cols srow erow (c, s)"
  have "last_scanned (sheets (snd (prescan_sheets e names cols srow erow r)) w) erow
          = last_scanned (sheets s w) erow"
    using Cons.IH [of "fst r" "snd r"] prescan_columns_last [of e sheet_name cols srow erow c s]
    by (simp add: r_def [symmetric])
  then show ?case unfolding prescan_sheets.simps r_def [symmetric] .
qed

lemma prescan_columns_below:
  "srow < 1 \<Longrightarrow> prescan_columns e ws cols srow erow (c, s) = (c, s)"
proof (induction cols)
  case Nil
  show ?case by simp
next
  case (Cons col_letter cols)
  show ?case
  proof (cases "column_index_from_string (upper e) col_letter")
    case None
    then show ?thesis using Cons by simp
  next
    case (Some col_index)
    show ?thesis
      unfolding prescan_columns_step [OF Some] prescan_rows_below [OF Cons.prems]
      by (rule Cons.IH [OF Cons.prems])
  qed
qed

lemma prescan_sheets_below:
  "srow < 1 \<Longrightarrow> prescan_sheets e names cols srow erow (c, s) = (c, s)"
  by (induction names) (simp_all add: prescan_columns_below)

lemma prescan_columns_count:
  assumes "1 \<le> srow" "distinct rows"
  shows "set rows \<subseteq> {srow..last_scanned (sheets s ws) erow} \<Longrightarrow>
     fst c + snd c + cnt_cols e (sheets s) ws cols rows
       \<le> fst (fst (prescan_columns e ws cols srow erow (c, s)))
         + snd (fst (prescan_columns e ws cols srow erow (c, s)))"
proof (induction cols arbitrary: c s)
  case Nil
  show ?case by simp
next
  case (Cons col_letter cols)
  show ?case
  proof (cases "column_index_from_string (upper e) col_letter")
    case None
    then show ?thesis using Cons.IH [OF Cons.prems, of c] by simp
  next
    case (Some col_index)
    define r where "r = prescan_rows e ws col_index [srow..last_scanned (sheets s ws) erow] (c, s)"
    have 1: "fst (fst r) + snd (fst r)
               = fst c + snd c
                 + cnt_rows (sheets s) ws col_index [srow..last_scanned (sheets s ws) erow]"
      unfolding r_def using assms(1) by (intro prescan_rows_count) simp
    have 2: "cnt_rows (sheets s) ws col_index rows
               \<le> cnt_rows (sheets s) ws col_index [srow..last_scanned (sheets s ws) erow]"
      using Cons.prems by (intro cnt_rows_subset [OF assms(2)]) simp
    have l: "last_scanned (sheets (snd r) ws) erow = last_scanned (sheets s ws) erow"
      unfolding r_def by (rule prescan_rows_last) simp
    have k: "cnt_cols e (sheets (snd r)) ws cols rows = cnt_cols e (sheets s) ws cols rows"
      unfolding r_def by (rule cnt_cols_cong) (simp add: prescan_rows_kept)
    have "fst (fst r) + snd (fst r) + cnt_cols e (sheets (snd r)) ws cols rows
            \<le> fst (fst (prescan_columns e ws cols srow erow (fst r, snd r)))
              + snd (fst (prescan_columns e ws cols srow erow (fst r, snd r)))"
      using Cons.prems l by (intro Cons.IH) simp
    then have "fst c + snd c
                 + (cnt_rows (sheets s) ws col_index rows + cnt_cols e (sheets s) ws cols rows)
            \<le> fst (fst (prescan_columns e ws cols srow erow r))
              + snd (fst (prescan_columns e ws cols srow erow r))"
      using 1 2 k by simp
    then show ?thesis
      unfolding prescan_columns_step [OF Some] r_def [symmetric] cnt_cols.simps Some
      by simp
  qed
qed

lemma prescan_sheets_count:
  assumes "1 \<le> srow" "\<And>w. distinct (R w)"
  shows "(\<And>w. set (R w) \<subseteq> {srow..last_scanned (sheets s w) erow}) \<Longrightarrow>
     fst c + snd c + cnt_sheets e (sheets s) R names cols
       \<le> fst (fst (prescan_sheets e names cols srow erow (c, s)))
         + snd (fst (prescan_sheets e names cols srow erow (c, s)))"
proof (induction names arbitrary: c s)
  case Nil
  show ?case by simp
next
  case (Cons sheet_name names)
  define r where "r = prescan_columns e sheet_name cols srow erow (c, s)"
  have 1: "fst c + snd c + cnt_cols e (sheets s) sheet_name cols (R sheet_name)
             \<le> fst (fst r) + snd (fst r)"
    unfolding r_def by (rule prescan_columns_count [OF assms(1) assms(2) Cons.prems])
  have l: "set (R w) \<subseteq> {srow..last_scanned (sheets (snd r) w) erow}" for w
    unfolding r_def using Cons.prems [of w] by (simp add: prescan_columns_last)
  have k: "cnt_sheets e (sheets (snd r)) R names cols = cnt_sheets e (sheets s) R names cols"
    unfolding r_def by (rule cnt_sheets_cong) (simp add: prescan_columns_kept)
  have "fst (fst r) + snd (fst r) + cnt_sheets e (sheets (snd r)) R names cols
          \<le> fst (fst (prescan_sheets e names cols srow erow (fst r, snd r)))
            + snd (fst (prescan_sheets e names cols srow erow (fst r, snd r)))"
    by (rule Cons.IH [OF l])
  then have "fst c + snd c
               + (cnt_cols e (sheets s) sheet_name cols (R sheet_name)
                  + cnt_sheets e (sheets s) R names cols)
          \<le> fst (fst (prescan_sheets e names cols srow erow r))
            + snd (fst (prescan_sheets e names cols srow erow r))"
    using 1 k by simp
  then show ?case unfolding prescan_sheets.simps cnt_sheets.simps r_def [symmetric] .
qed

text \<open>The counters along a run.\<close>

lemma all_bounded_assign:
  "all_bounded s \<Longrightarrow> bounded (f (task s)) \<Longrightarrow> all_bounded (assign fld f s)"
  by (simp add: all_bounded_def assign_def)

lemma all_bounded_quiet:
  "all_bounded s \<Longrightarrow> task s' = task s \<Longrightarrow> observed (log s') = observed (log s)
     \<Longrightarrow> all_bounded s'"
  by (simp add: all_bounded_def)

lemma all_bounded_within:
  assumes "all_bounded s" "within n s s'" "processed (task s) + n \<le> total_cells (task s)"
  shows "all_bounded s'"
proof -
  obtain evs where evs: "log s' = log s @ evs"
    "list_all (\<lambda>t. total_cells t = total_cells (task s)
                   \<and> processed t \<le> processed (task s) + n) (observed evs)"
    using assms(2) by (rule within_log)
  have "list_all bounded (observed evs)"
    using evs(2) assms(3) by (auto simp: list_all_iff bounded_def)
  then show ?thesis
    using assms(1,3) evs(1) within_task(1,2) [OF assms(2)]
    by (simp add: all_bounded_def bounded_def)
qed

lemma all_bounded_fail_with: "all_bounded s \<Longrightarrow> all_bounded (fail_with m s)"
  unfolding fail_with_def
  by (intro all_bounded_assign) (simp_all add: all_bounded_def bounded_def processed_def assign_def)

lemma all_bounded_save_result: "all_bounded s \<Longrightarrow> all_bounded (save_result e s)"
  by (simp add: save_result_def Let_def all_bounded_def bounded_def processed_def assign_def)

text \<open>
  After the pre-scan and the reset, no cell is processed yet, and the total is at least
  the number of visits of texts that the worksheet passes can make.
\<close>

lemma clamp_end_last: "clamp_end w erow \<le> last_scanned w erow"
  by (simp add: clamp_end_def last_scanned_def Let_def)

lemma count_cells_bound:
  assumes "all_bounded s" "processed (task s) = 0"
    and "s7 = snd (count_cells e names s)"
  shows "all_bounded s7" and "processed (task s7) = 0"
    and "total_cells (task s7)
           = fst (fst (count_cells e names s)) + snd (fst (count_cells e names s))"
    and "total_cells (task s7) \<noteq> 0 \<Longrightarrow>
         cnt_sheets e (sheets s7) (pass_rows (sheets s7) (start_row (task s7)) (end_row (task s7)))
           names (columns (task s7)) \<le> total_cells (task s7)"
proof -
  define s1 where "s1 = assign F_message (\<lambda>t. t\<lparr>message := MsgCounting\<rparr>) s"
  define cols where "cols = columns (task s1)"
  define srow where "srow = start_row (task s1)"
  define erow where "erow = end_row (task s1)"
  define r where "r = prescan_sheets e names cols srow erow ((0, 0), s1)"
  define total where "total = fst (fst r) + snd (fst r)"
  have k: "task (snd r) = task s1" "log (snd r) = log s1"
    "\<And>w. cells (sheets (snd r) w) = cells (sheets s1 w)"
    using prescan_sheets_kept [of e names cols srow erow "(0, 0)" s1] by (simp_all add: r_def)
  have f: "fst (count_cells e names s) = fst r"
    by (simp add: count_cells_def Let_def case_prod_beta s1_def r_def cols_def srow_def erow_def)
  have eq: "s7 =
      assign F_progress (\<lambda>t. t\<lparr>progress := 0\<rparr>)
        (assign F_skipped_cells (\<lambda>t. t\<lparr>skipped_cells := 0\<rparr>)
        (assign F_error_cells (\<lambda>t. t\<lparr>error_cells := 0\<rparr>)
        (assign F_translated_cells (\<lambda>t. t\<lparr>translated_cells := 0\<rparr>)
        (assign F_total_cells (\<lambda>t. t\<lparr>total_cells := total\<rparr>) (snd r)))))"
    by (simp add: assms(3) count_cells_def Let_def case_prod_beta s1_def r_def cols_def
        srow_def erow_def total_def)
  have z: "translated_cells (task s) = 0" "error_cells (task s) = 0" "skipped_cells (task s) = 0"
    using assms(2) by (simp_all add: processed_def)
  have 1: "all_bounded s1"
    unfolding s1_def using assms(1)
    by (intro all_bounded_assign) (simp_all add: all_bounded_def bounded_def processed_def)
  have 2: "all_bounded (snd r)"
    by (rule all_bounded_quiet [OF 1]) (simp_all add: k)
  have t2: "task (snd r) = (task s)\<lparr>message := MsgCounting\<rparr>"
    by (simp add: k s1_def assign_def)
  show "all_bounded s7"
    using 2 z
    by (simp add: eq t2 all_bounded_def bounded_def processed_def assign_def)
  show p7: "processed (task s7) = 0"
    by (simp add: eq t2 processed_def assign_def)
  show "total_cells (task s7)
           = fst (fst (count_cells e names s)) + snd (fst (count_cells e names s))"
    by (simp add: f eq total_def assign_def)
  have j: "sheets s7 = sheets (snd r)" "columns (task s7) = cols" "start_row (task s7) = srow"
    "end_row (task s7) = erow" "total_cells (task s7) = total"
    by (simp_all add: eq t2 assign_def cols_def srow_def erow_def s1_def)
  show "cnt_sheets e (sheets s7) (pass_rows (sheets s7) (start_row (task s7)) (end_row (task s7)))
           names (columns (task s7)) \<le> total_cells (task s7)"
    if "total_cells (task s7) \<noteq> 0"
  proof -
    have ge: "1 \<le> srow"
    proof (rule ccontr)
      assume "\<not> 1 \<le> srow"
      then have "r = ((0, 0), s1)" unfolding r_def by (intro prescan_sheets_below) simp
      then show False using that j(5) by (simp add: total_def)
    qed
    define R where "R = pass_rows (sheets (snd r)) srow erow"
    have d: "distinct (R w)" for w by (simp add: R_def pass_rows_def)
    have "set (R w) \<subseteq> {srow..last_scanned (sheets (snd r) w) erow}" for w
      using ge clamp_end_last [of "sheets (snd r) w" erow]
      by (auto simp: R_def pass_rows_def clamp_start_def)
    then have sub: "set (R w) \<subseteq> {srow..last_scanned (sheets s1 w) erow}" for w
      by (simp add: r_def prescan_sheets_last)
    have "cnt_sheets e (sheets s1) R names cols \<le> total"
      using prescan_sheets_count [of srow R s1 erow "(0, 0)" e names cols, OF ge d sub]
      by (simp add: total_def r_def)
    moreover have "cnt_sheets e (sheets (snd r)) R names cols = cnt_sheets e (sheets s1) R names cols"
      by (rule cnt_sheets_cong) (rule k(3))
    ultimately show ?thesis by (simp add: j R_def)
  qed
qed

lemma scan_and_translate_bounded:
  assumes "all_bounded s" "processed (task s) = 0"
  shows "all_bounded (snd (scan_and_translate e names s))"
proof -
  define c where "c = fst (count_cells e names s)"
  define s7 where "s7 = snd (count_cells e names s)"
  note b = count_cells_bound [OF assms s7_def]
  have t: "total_cells (task s7) = fst c + snd c" using b(3) by (simp add: c_def)
  define s9 where "s9 = assign F_output_file (\<lambda>t. t\<lparr>output_file := output_path e (filename t)\<rparr>)
      (assign F_message (\<lambda>t. t\<lparr>message := MsgFound (fst c) (snd c)\<rparr>) s7)"
  define s10 where "s10 = snd (sheets_loop e names s9)"
  have 0: "all_bounded (assign F_end_time (\<lambda>t. t\<lparr>end_time := Some (clock_end e)\<rparr>)
      (assign F_status (\<lambda>t. t\<lparr>status := Completed\<rparr>)
      (assign F_message (\<lambda>t. t\<lparr>message := MsgNothingToDo\<rparr>) s7)))"
    using b(1)
    by (simp add: all_bounded_def bounded_def processed_def assign_def)
  have 9: "all_bounded s9"
    using b(1) by (simp add: s9_def all_bounded_def bounded_def processed_def assign_def)
  have j: "sheets s9 = sheets s7" "columns (task s9) = columns (task s7)"
    "start_row (task s9) = start_row (task s7)" "end_row (task s9) = end_row (task s7)"
    "total_cells (task s9) = total_cells (task s7)" "processed (task s9) = 0"
    using b(2) by (simp_all add: s9_def assign_def processed_def)
  have 10: "all_bounded s10" if "fst c + snd c \<noteq> 0"
  proof -
    have w: "within (cnt_sheets e (sheets s7)
                       (pass_rows (sheets s7) (start_row (task s7)) (end_row (task s7)))
                       names (columns (task s7))) s9 s10"
      using within_sheets_loop [of e s9 names] by (simp add: j s10_def)
    show ?thesis
      using b(4) that t by (intro all_bounded_within [OF 9 w]) (simp add: j)
  qed
  have "snd (scan_and_translate e names s) =
          assign F_end_time (\<lambda>t. t\<lparr>end_time := Some (clock_end e)\<rparr>)
            (assign F_status (\<lambda>t. t\<lparr>status := Completed\<rparr>)
            (assign F_message (\<lambda>t. t\<lparr>message := MsgNothingToDo\<rparr>) s7))
      \<or> fst c + snd c \<noteq> 0 \<and> (snd (scan_and_translate e names s) = s10
          \<or> snd (scan_and_translate e names s) = save_result e s10)"
    by (simp add: scan_and_translate_def Let_def case_prod_beta c_def s7_def s9_def s10_def)
  then show ?thesis using 0 10 all_bounded_save_result by auto
qed

text \<open>
  C4. At every observation point of a run, that is in the task record after each
  assignment to one of its fields, the cells translated, failed and skipped are together
  at most \<open>total_cells\<close>. The run is that of the engine on a task record as
  \<open>TranslationTask\<close> creates it, through the pre-scan that fixes the total, the
  worksheet passes and the save, whatever the service answers and whether or not an
  exception ends it. The pre-scan counts every visit of a text cell that a worksheet pass
  can make (for each worksheet name and each valid column name, the rows from the start
  row on), a pass counts a cell at most once for each visit, and a cell that is a text
  to process when it is visited was one when it was counted.
\<close>

theorem counters_within_total:
  "list_all (\<lambda>t. translated_cells t + error_cells t + skipped_cells t \<le> total_cells t)
     (observed (log (run e (TranslationTask tid fname cols srow erow snames aid akey))))"
proof -
  define t0 where "t0 = TranslationTask tid fname cols srow erow snames aid akey"
  define G :: "state \<Rightarrow> bool" where "G = (\<lambda>s. all_bounded s \<and> processed (task s) = 0)"
  have A: "G (assign fld f s)"
    if "G s" "processed (f (task s)) = 0" for fld f s
    using that by (simp add: G_def all_bounded_def bounded_def assign_def)
  have C: "G (snd (call_translate e q s))" if "G s" for q s
    using that
    by (simp add: G_def all_bounded_def call_translate_def case_prod_beta split: option.split)
  have T: "all_bounded (snd (scan_and_translate e names s))" if "G s" for names s
    using that scan_and_translate_bounded by (simp add: G_def)
  have F: "all_bounded (fail_with m s)" if "G s" for m s
    using that all_bounded_fail_with by (simp add: G_def)
  have E: "all_bounded s" if "G s" for s using that by (simp add: G_def)
  define s3 where "s3 = assign F_message (\<lambda>t. t\<lparr>message := MsgTestingApi\<rparr>)
      (assign F_status (\<lambda>t. t\<lparr>status := Running\<rparr>)
      (assign F_start_time (\<lambda>t. t\<lparr>start_time := Some (clock_start e)\<rparr>) (start_state t0)))"
  define s4 where "s4 = snd (call_translate e [27979, 35797] s3)"
  define s6 where "s6 = assign F_message (\<lambda>t. t\<lparr>message := MsgLoadingFile (filename t)\<rparr>)
      (assign F_message (\<lambda>t. t\<lparr>message := MsgApiTestPassed\<rparr>) s4)"
  have "G (start_state t0)"
    by (simp add: G_def all_bounded_def bounded_def processed_def start_state_def t0_def
        TranslationTask_def)
  then have "G s3"
    unfolding s3_def by (intro A) (simp_all add: G_def processed_def assign_def)
  then have 4: "G s4" unfolding s4_def by (rule C)
  then have 6: "G s6"
    unfolding s6_def by (intro A) (simp_all add: G_def processed_def assign_def)
  have 7: "G (assign F_message (\<lambda>t. t\<lparr>message := m\<rparr>) (s6\<lparr>sheets := sh\<rparr>))" for m sh
    using 6 by (simp add: G_def all_bounded_def bounded_def processed_def assign_def)
  have 8: "G (assign F_sheet_names (\<lambda>t. t\<lparr>sheet_names := n\<rparr>)
             (assign F_message (\<lambda>t. t\<lparr>message := m\<rparr>) (s6\<lparr>sheets := sh\<rparr>)))" for n m sh
    using 7 [of m sh] by (simp add: G_def all_bounded_def bounded_def processed_def assign_def)
  have "all_bounded (snd (try_body e (start_state t0)))"
    unfolding try_body_def Let_def case_prod_beta s3_def [symmetric] s4_def [symmetric]
      s6_def [symmetric]
    by (auto split: load_result.split option.split sum.split
        intro!: T F E [OF 4] 4 6 7 8)
  then have "all_bounded (translate_excel_with_progress e (start_state t0))"
    using all_bounded_fail_with
    by (simp add: translate_excel_with_progress_def case_prod_beta split: outcome.split)
  then have "list_all bounded (observed (log (run e t0)))"
    by (simp add: all_bounded_def run_def)
  then show ?thesis
    by (simp add: list_all_iff bounded_def processed_def t0_def)
qed

theorem counters_within_total_witness:
  "list_all (\<lambda>t. translated_cells t + error_cells t + skipped_cells t \<le> total_cells t)
     (observed (log (run (demo_env (\<lambda>_. TransResult [[79, 75]])) demo_task)))"
  using counters_within_total [of "demo_env (\<lambda>_. TransResult [[79, 75]])"
      "[116]" "[102]" "[[68]]" 2 "Some 3" "Some [[83]]" "[105]" "[107]"]
  by (simp add: demo_task_def)

end
